theory Spec2Isabelle
  imports Main "HOL-Library.Product_Lexorder" "HOL-Library.Code_Target_Nat"
begin

section \<open>Index type and sentinels\<close>

text \<open>
  The index type \<open>index_t\<close> is declared in \<open>a2dobjs.h\<close>, which is not among the
  sources of this development. Indices are modelled as natural numbers and the sentinel
  \<open>std::numeric_limits<index_t>::max()\<close> as the largest unsigned 32-bit value. The
  theorems below state explicitly where a count has to stay below the sentinel.
\<close>

definition NO_LABEL :: nat where
  "NO_LABEL = 4294967295"

definition NO_INDEX :: nat where
  "NO_INDEX = 4294967295"

section \<open>Element-type catalogue\<close>

text \<open>
  \<open>ElementTypes\<close> lives in \<open>multiphysics/feelementtypes.h\<close>, which is not among the
  sources either. Its counts and local tables are therefore parameters of the model,
  collected in a record; \<open>ET_tables\<close> below is one concrete catalogue, used to run the
  model on concrete meshes.
\<close>

record ElementTypes =
  TET_VERTS :: nat
  TET_EDGES :: nat
  TET_FACES :: nat
  TET_EDGE_VERTS :: "nat list list"
  TET_FACE_VERTS :: "nat list list"
  HEX_VERTS :: nat
  HEX_EDGES :: nat
  HEX_FACES :: nat
  HEX_EDGE_VERTS :: "nat list list"
  HEX_FACE_VERTS :: "nat list list"
  WEDGE_VERTS :: nat
  WEDGE_EDGES :: nat
  WEDGE_FACES :: nat
  WEDGE_TRI_FACES :: nat
  WEDGE_EDGE_VERTS :: "nat list list"
  WEDGE_TRI_FACE_VERTS :: "nat list list"
  WEDGE_QUAD_FACE_VERTS :: "nat list list"
  PYRMD_VERTS :: nat
  PYRMD_EDGES :: nat
  PYRMD_FACES :: nat
  PYRMD_TRI_FACES :: nat
  PYRMD_EDGE_VERTS :: "nat list list"
  PYRMD_TRI_FACE_VERTS :: "nat list list"
  PYRMD_QUAD_FACE_VERTS :: "nat list"

definition ET_tables :: ElementTypes where
  "ET_tables = \<lparr>
     TET_VERTS = 4, TET_EDGES = 6, TET_FACES = 4,
     TET_EDGE_VERTS = [[0, 1], [1, 2], [2, 0], [0, 3], [1, 3], [2, 3]],
     TET_FACE_VERTS = [[1, 2, 3], [0, 3, 2], [0, 1, 3], [0, 2, 1]],
     HEX_VERTS = 8, HEX_EDGES = 12, HEX_FACES = 6,
     HEX_EDGE_VERTS = [[0, 1], [3, 2], [4, 5], [7, 6], [0, 3], [1, 2],
                       [4, 7], [5, 6], [0, 4], [1, 5], [3, 7], [2, 6]],
     HEX_FACE_VERTS = [[0, 4, 7, 3], [1, 2, 6, 5], [0, 1, 5, 4],
                       [3, 7, 6, 2], [0, 3, 2, 1], [4, 5, 6, 7]],
     WEDGE_VERTS = 6, WEDGE_EDGES = 9, WEDGE_FACES = 5, WEDGE_TRI_FACES = 2,
     WEDGE_EDGE_VERTS = [[0, 1], [1, 2], [2, 0], [3, 4], [4, 5], [5, 3],
                         [0, 3], [1, 4], [2, 5]],
     WEDGE_TRI_FACE_VERTS = [[0, 1, 2], [3, 4, 5]],
     WEDGE_QUAD_FACE_VERTS = [[0, 3, 4, 1], [1, 4, 5, 2], [0, 2, 5, 3]],
     PYRMD_VERTS = 5, PYRMD_EDGES = 8, PYRMD_FACES = 5, PYRMD_TRI_FACES = 4,
     PYRMD_EDGE_VERTS = [[0, 1], [1, 2], [2, 3], [3, 0], [0, 4], [1, 4],
                         [2, 4], [3, 4]],
     PYRMD_TRI_FACE_VERTS = [[0, 1, 4], [1, 2, 4], [2, 3, 4], [0, 4, 3]],
     PYRMD_QUAD_FACE_VERTS = [0, 3, 2, 1] \<rparr>"

section \<open>Mesh connectivity\<close>

text \<open>
  The class \<open>MeshConnectivity3D\<close> as a record of its data members. The raw arrays are
  lists; a pointer into one of the four per-shape arrays is the shape together with the
  offset of the pointed-to entry, and \<open>NULL\<close> is a value of its own.
\<close>

record MeshConnectivity3D =
  nverts :: nat
  ntets :: nat
  nhex :: nat
  nwedge :: nat
  npyrmd :: nat
  nelems :: nat
  ntri_faces :: nat
  nquad_faces :: nat
  nfaces :: nat
  nedges :: nat
  tet_verts :: "nat list"
  hex_verts :: "nat list"
  wedge_verts :: "nat list"
  pyrmd_verts :: "nat list"
  vert_element_ptr :: "nat list"
  vert_elements :: "nat list"
  tet_faces :: "nat list"
  hex_faces :: "nat list"
  wedge_faces :: "nat list"
  pyrmd_faces :: "nat list"
  tri_face_elements :: "nat list"
  quad_face_elements :: "nat list"
  tet_edges :: "nat list"
  hex_edges :: "nat list"
  wedge_edges :: "nat list"
  pyrmd_edges :: "nat list"

datatype shape = Tet | Hex | Wedge | Pyrmd

datatype ptr = NULL | Ptr shape nat

text \<open>\<open>get_element_faces\<close>: the pointer written to \<open>*faces\<close> and the returned count.\<close>

definition get_element_faces ::
  "ElementTypes \<Rightarrow> MeshConnectivity3D \<Rightarrow> nat \<Rightarrow> ptr \<times> nat" where
  "get_element_faces E m elem =
     (if elem < ntets m then (Ptr Tet (TET_FACES E * elem), TET_FACES E)
      else if elem < ntets m + nhex m then
        (Ptr Hex (HEX_FACES E * (elem - ntets m)), HEX_FACES E)
      else if elem < ntets m + nhex m + nwedge m then
        (Ptr Wedge (WEDGE_FACES E * (elem - ntets m - nhex m)), WEDGE_FACES E)
      else if elem < ntets m + nhex m + nwedge m + npyrmd m then
        (Ptr Pyrmd (PYRMD_FACES E * (elem - ntets m - nhex m - nwedge m)), PYRMD_FACES E)
      else (NULL, 0))"

text \<open>\<open>get_element_verts\<close>: the pointer written to \<open>*verts\<close> and the returned count.\<close>

definition get_element_verts ::
  "ElementTypes \<Rightarrow> MeshConnectivity3D \<Rightarrow> nat \<Rightarrow> ptr \<times> nat" where
  "get_element_verts E m elem =
     (if elem < ntets m then (Ptr Tet (TET_VERTS E * elem), TET_VERTS E)
      else if elem < ntets m + nhex m then
        (Ptr Hex (HEX_VERTS E * (elem - ntets m)), HEX_VERTS E)
      else if elem < ntets m + nhex m + nwedge m then
        (Ptr Wedge (WEDGE_VERTS E * (elem - ntets m - nhex m)), WEDGE_VERTS E)
      else if elem < ntets m + nhex m + nwedge m + npyrmd m then
        (Ptr Pyrmd (PYRMD_VERTS E * (elem - ntets m - nhex m - nwedge m)), PYRMD_VERTS E)
      else (NULL, 0))"

text \<open>
  \<open>get_element_edges\<close> does not assign \<open>*edges\<close> when the element is out of range: the
  model takes the value the caller's pointer had before the call and returns the value
  it has afterwards, with the count.
\<close>

definition get_element_edges ::
  "ElementTypes \<Rightarrow> MeshConnectivity3D \<Rightarrow> nat \<Rightarrow> ptr \<Rightarrow> ptr \<times> nat" where
  "get_element_edges E m elem edges =
     (if elem < ntets m then (Ptr Tet (TET_EDGES E * elem), TET_EDGES E)
      else if elem < ntets m + nhex m then
        (Ptr Hex (HEX_EDGES E * (elem - ntets m)), HEX_EDGES E)
      else if elem < ntets m + nhex m + nwedge m then
        (Ptr Wedge (WEDGE_EDGES E * (elem - ntets m - nhex m)), WEDGE_EDGES E)
      else if elem < ntets m + nhex m + nwedge m + npyrmd m then
        (Ptr Pyrmd (PYRMD_EDGES E * (elem - ntets m - nhex m - nwedge m)), PYRMD_EDGES E)
      else (edges, 0))"

text \<open>Reading through a pointer into the element-to-vertex arrays.\<close>

definition verts_at :: "MeshConnectivity3D \<Rightarrow> ptr \<Rightarrow> nat \<Rightarrow> nat" where
  "verts_at m p i =
     (case p of
        Ptr Tet off \<Rightarrow> tet_verts m ! (off + i)
      | Ptr Hex off \<Rightarrow> hex_verts m ! (off + i)
      | Ptr Wedge off \<Rightarrow> wedge_verts m ! (off + i)
      | Ptr Pyrmd off \<Rightarrow> pyrmd_verts m ! (off + i))"

text \<open>Reading and writing through a pointer into the element-to-face arrays.\<close>

definition faces_at :: "MeshConnectivity3D \<Rightarrow> ptr \<Rightarrow> nat \<Rightarrow> nat" where
  "faces_at m p i =
     (case p of
        Ptr Tet off \<Rightarrow> tet_faces m ! (off + i)
      | Ptr Hex off \<Rightarrow> hex_faces m ! (off + i)
      | Ptr Wedge off \<Rightarrow> wedge_faces m ! (off + i)
      | Ptr Pyrmd off \<Rightarrow> pyrmd_faces m ! (off + i))"

definition faces_set :: "ptr \<Rightarrow> nat \<Rightarrow> nat \<Rightarrow> MeshConnectivity3D \<Rightarrow> MeshConnectivity3D" where
  "faces_set p i v m =
     (case p of
        Ptr Tet off \<Rightarrow> m\<lparr>tet_faces := (tet_faces m)[off + i := v]\<rparr>
      | Ptr Hex off \<Rightarrow> m\<lparr>hex_faces := (hex_faces m)[off + i := v]\<rparr>
      | Ptr Wedge off \<Rightarrow> m\<lparr>wedge_faces := (wedge_faces m)[off + i := v]\<rparr>
      | Ptr Pyrmd off \<Rightarrow> m\<lparr>pyrmd_faces := (pyrmd_faces m)[off + i := v]\<rparr>
      | NULL \<Rightarrow> m)"

text \<open>Reading and writing through a pointer into the element-to-edge arrays.\<close>

definition edges_at :: "MeshConnectivity3D \<Rightarrow> ptr \<Rightarrow> nat \<Rightarrow> nat" where
  "edges_at m p i =
     (case p of
        Ptr Tet off \<Rightarrow> tet_edges m ! (off + i)
      | Ptr Hex off \<Rightarrow> hex_edges m ! (off + i)
      | Ptr Wedge off \<Rightarrow> wedge_edges m ! (off + i)
      | Ptr Pyrmd off \<Rightarrow> pyrmd_edges m ! (off + i))"

definition edges_set :: "ptr \<Rightarrow> nat \<Rightarrow> nat \<Rightarrow> MeshConnectivity3D \<Rightarrow> MeshConnectivity3D" where
  "edges_set p i v m =
     (case p of
        Ptr Tet off \<Rightarrow> m\<lparr>tet_edges := (tet_edges m)[off + i := v]\<rparr>
      | Ptr Hex off \<Rightarrow> m\<lparr>hex_edges := (hex_edges m)[off + i := v]\<rparr>
      | Ptr Wedge off \<Rightarrow> m\<lparr>wedge_edges := (wedge_edges m)[off + i := v]\<rparr>
      | Ptr Pyrmd off \<Rightarrow> m\<lparr>pyrmd_edges := (pyrmd_edges m)[off + i := v]\<rparr>
      | NULL \<Rightarrow> m)"

text \<open>
  \<open>get_adjacent_elements_from_vert\<close>: the adjacent elements as the offset of the first
  one in \<open>vert_elements\<close>, and their number. For \<open>vert \<ge> nverts\<close> the source assigns the
  local parameter, not the caller's pointer; the count is 0.
\<close>

definition get_adjacent_elements_from_vert :: "MeshConnectivity3D \<Rightarrow> nat \<Rightarrow> nat \<times> nat" where
  "get_adjacent_elements_from_vert m vert =
     (if vert < nverts m then
        (vert_element_ptr m ! vert, vert_element_ptr m ! (vert + 1) - vert_element_ptr m ! vert)
      else (0, 0))"

text \<open>
  \<open>get_element_face_verts\<close>: the entries written to \<open>verts\<close> (as many as the face has
  vertices) and the returned count.
\<close>

definition get_element_face_verts ::
  "ElementTypes \<Rightarrow> MeshConnectivity3D \<Rightarrow> nat \<Rightarrow> nat \<Rightarrow> nat list \<times> nat" where
  "get_element_face_verts E m elem f =
     (if elem < ntets m then
        ([tet_verts m ! (TET_VERTS E * elem + TET_FACE_VERTS E ! f ! 0),
          tet_verts m ! (TET_VERTS E * elem + TET_FACE_VERTS E ! f ! 1),
          tet_verts m ! (TET_VERTS E * elem + TET_FACE_VERTS E ! f ! 2)], 3)
      else if elem < ntets m + nhex m then
        (let elem = elem - ntets m in
         ([hex_verts m ! (HEX_VERTS E * elem + HEX_FACE_VERTS E ! f ! 0),
           hex_verts m ! (HEX_VERTS E * elem + HEX_FACE_VERTS E ! f ! 1),
           hex_verts m ! (HEX_VERTS E * elem + HEX_FACE_VERTS E ! f ! 2),
           hex_verts m ! (HEX_VERTS E * elem + HEX_FACE_VERTS E ! f ! 3)], 4))
      else if elem < ntets m + nhex m + nwedge m then
        (let elem = elem - ntets m - nhex m in
         if f < WEDGE_TRI_FACES E then
           ([wedge_verts m ! (WEDGE_VERTS E * elem + WEDGE_TRI_FACE_VERTS E ! f ! 0),
             wedge_verts m ! (WEDGE_VERTS E * elem + WEDGE_TRI_FACE_VERTS E ! f ! 1),
             wedge_verts m ! (WEDGE_VERTS E * elem + WEDGE_TRI_FACE_VERTS E ! f ! 2)], 3)
         else
           ([wedge_verts m ! (WEDGE_VERTS E * elem
               + WEDGE_QUAD_FACE_VERTS E ! (f - WEDGE_TRI_FACES E) ! 0),
             wedge_verts m ! (WEDGE_VERTS E * elem
               + WEDGE_QUAD_FACE_VERTS E ! (f - WEDGE_TRI_FACES E) ! 1),
             wedge_verts m ! (WEDGE_VERTS E * elem
               + WEDGE_QUAD_FACE_VERTS E ! (f - WEDGE_TRI_FACES E) ! 2),
             wedge_verts m ! (WEDGE_VERTS E * elem
               + WEDGE_QUAD_FACE_VERTS E ! (f - WEDGE_TRI_FACES E) ! 3)], 4))
      else if elem < ntets m + nhex m + nwedge m + npyrmd m then
        (let elem = elem - ntets m - nhex m - nwedge m in
         if f < PYRMD_TRI_FACES E then
           ([pyrmd_verts m ! (PYRMD_VERTS E * elem + PYRMD_TRI_FACE_VERTS E ! f ! 0),
             pyrmd_verts m ! (PYRMD_VERTS E * elem + PYRMD_TRI_FACE_VERTS E ! f ! 1),
             pyrmd_verts m ! (PYRMD_VERTS E * elem + PYRMD_TRI_FACE_VERTS E ! f ! 2)], 3)
         else
           ([pyrmd_verts m ! (PYRMD_VERTS E * elem + PYRMD_QUAD_FACE_VERTS E ! 0),
             pyrmd_verts m ! (PYRMD_VERTS E * elem + PYRMD_QUAD_FACE_VERTS E ! 1),
             pyrmd_verts m ! (PYRMD_VERTS E * elem + PYRMD_QUAD_FACE_VERTS E ! 2),
             pyrmd_verts m ! (PYRMD_VERTS E * elem + PYRMD_QUAD_FACE_VERTS E ! 3)], 4))
      else ([], 0))"

text \<open>
  The body of \<open>get_element_global_face_verts\<close> after the call of
  \<open>get_element_face_verts\<close>: from the local array \<open>t\<close> and the count \<open>n\<close> to the entries
  written to \<open>verts\<close> and the returned count. Every count other than 3 takes the
  four-vertex branch, as in the source.
\<close>

definition global_face_order :: "nat list \<Rightarrow> nat \<Rightarrow> nat list \<times> nat" where
  "global_face_order t n =
     (if n = 3 then
        (if t ! 0 < t ! 1 \<and> t ! 0 < t ! 2 then
           (if t ! 1 < t ! 2 then [t ! 0, t ! 1, t ! 2] else [t ! 0, t ! 2, t ! 1])
         else if t ! 1 < t ! 0 \<and> t ! 1 < t ! 2 then
           (if t ! 2 < t ! 0 then [t ! 1, t ! 2, t ! 0] else [t ! 1, t ! 0, t ! 2])
         else
           (if t ! 0 < t ! 1 then [t ! 2, t ! 0, t ! 1] else [t ! 2, t ! 1, t ! 0]), 3)
      else
        (if t ! 0 < t ! 1 \<and> t ! 0 < t ! 2 \<and> t ! 0 < t ! 3 then
           (if t ! 1 < t ! 3 then [t ! 0, t ! 1, t ! 2, t ! 3]
            else [t ! 0, t ! 3, t ! 2, t ! 1])
         else if t ! 1 < t ! 0 \<and> t ! 1 < t ! 2 \<and> t ! 1 < t ! 3 then
           (if t ! 2 < t ! 0 then [t ! 1, t ! 2, t ! 3, t ! 0]
            else [t ! 1, t ! 0, t ! 3, t ! 2])
         else if t ! 2 < t ! 0 \<and> t ! 2 < t ! 1 \<and> t ! 2 < t ! 3 then
           (if t ! 3 < t ! 1 then [t ! 2, t ! 3, t ! 0, t ! 1]
            else [t ! 2, t ! 1, t ! 0, t ! 3])
         else
           (if t ! 0 < t ! 2 then [t ! 3, t ! 0, t ! 1, t ! 2]
            else [t ! 3, t ! 2, t ! 1, t ! 0]), 4))"

definition get_element_global_face_verts ::
  "ElementTypes \<Rightarrow> MeshConnectivity3D \<Rightarrow> nat \<Rightarrow> nat \<Rightarrow> nat list \<times> nat" where
  "get_element_global_face_verts E m elem local_face =
     (case get_element_face_verts E m elem local_face of (t, n) \<Rightarrow> global_face_order t n)"

definition global_face_equality :: "nat \<Rightarrow> nat list \<Rightarrow> nat \<Rightarrow> nat list \<Rightarrow> bool" where
  "global_face_equality na a nb b =
     (if na = nb then
        (if na = 3 then a ! 0 = b ! 0 \<and> a ! 1 = b ! 1 \<and> a ! 2 = b ! 2
         else a ! 0 = b ! 0 \<and> a ! 1 = b ! 1 \<and> a ! 2 = b ! 2 \<and> a ! 3 = b ! 3)
      else False)"

definition global_edge_equality :: "nat list \<Rightarrow> nat list \<Rightarrow> bool" where
  "global_edge_equality a b =
     ((a ! 0 = b ! 0 \<and> a ! 1 = b ! 1) \<or> (a ! 0 = b ! 1 \<and> a ! 1 = b ! 0))"

text \<open>\<open>get_face_elements\<close>: the values written to \<open>*e1\<close> and \<open>*e2\<close>, and the returned flag.\<close>

definition get_face_elements :: "MeshConnectivity3D \<Rightarrow> nat \<Rightarrow> nat \<times> nat \<times> bool" where
  "get_face_elements m face =
     (if face < ntri_faces m then
        (tri_face_elements m ! (2 * face), tri_face_elements m ! (2 * face + 1),
         tri_face_elements m ! (2 * face + 1) = NO_LABEL)
      else
        (let face = face - ntri_faces m in
         (quad_face_elements m ! (2 * face), quad_face_elements m ! (2 * face + 1),
          quad_face_elements m ! (2 * face + 1) = NO_LABEL)))"

text \<open>
  \<open>get_element_edge_verts\<close>: the array \<open>verts\<close> after the call; it is left as it was
  when the element is out of range.
\<close>

definition get_element_edge_verts ::
  "ElementTypes \<Rightarrow> MeshConnectivity3D \<Rightarrow> nat \<Rightarrow> nat \<Rightarrow> nat list \<Rightarrow> nat list" where
  "get_element_edge_verts E m elem edge verts =
     (if elem < ntets m then
        [tet_verts m ! (TET_VERTS E * elem + TET_EDGE_VERTS E ! edge ! 0),
         tet_verts m ! (TET_VERTS E * elem + TET_EDGE_VERTS E ! edge ! 1)]
      else if elem < ntets m + nhex m then
        (let elem = elem - ntets m in
         [hex_verts m ! (HEX_VERTS E * elem + HEX_EDGE_VERTS E ! edge ! 0),
          hex_verts m ! (HEX_VERTS E * elem + HEX_EDGE_VERTS E ! edge ! 1)])
      else if elem < ntets m + nhex m + nwedge m then
        (let elem = elem - ntets m - nhex m in
         [wedge_verts m ! (WEDGE_VERTS E * elem + WEDGE_EDGE_VERTS E ! edge ! 0),
          wedge_verts m ! (WEDGE_VERTS E * elem + WEDGE_EDGE_VERTS E ! edge ! 1)])
      else if elem < ntets m + nhex m + nwedge m + npyrmd m then
        (let elem = elem - ntets m - nhex m - nwedge m in
         [pyrmd_verts m ! (PYRMD_VERTS E * elem + PYRMD_EDGE_VERTS E ! edge ! 0),
          pyrmd_verts m ! (PYRMD_VERTS E * elem + PYRMD_EDGE_VERTS E ! edge ! 1)])
      else verts)"

section \<open>Construction of the connectivity\<close>

text \<open>
  Loops over an index range are folds over \<open>[0..<n]\<close> that pass the object on; a loop
  that is left by \<open>break\<close> once \<open>face_located\<close> is set carries the flag in its state
  and skips its body from then on.
\<close>

text \<open>
  \<open>init_vert_element_data\<close>, with one function for each of its four loops: counting
  the elements at each vertex, accumulating the counts, writing the elements, and
  shifting the pointers back. The array \<open>vert_elements\<close> is allocated without being
  initialised; every entry of it is written by the third loop, and the model starts
  it with zeros.
\<close>

definition count_vert_elements ::
  "ElementTypes \<Rightarrow> MeshConnectivity3D \<Rightarrow> MeshConnectivity3D" where
  "count_vert_elements E m0 =
     fold (\<lambda>elem m.
             case get_element_verts E m elem of (verts, nv) \<Rightarrow>
               fold (\<lambda>i m. m\<lparr>vert_element_ptr := (vert_element_ptr m)
                         [verts_at m verts i + 1 :=
                            vert_element_ptr m ! (verts_at m verts i + 1) + 1]\<rparr>)
                 [0..<nv] m)
       [0..<nelems m0] m0"

definition accumulate_vert_ptr :: "MeshConnectivity3D \<Rightarrow> MeshConnectivity3D" where
  "accumulate_vert_ptr m0 =
     fold (\<lambda>i m. m\<lparr>vert_element_ptr := (vert_element_ptr m)
                     [i + 1 := vert_element_ptr m ! (i + 1) + vert_element_ptr m ! i]\<rparr>)
       [0..<nverts m0] m0"

definition scatter_vert_elements ::
  "ElementTypes \<Rightarrow> MeshConnectivity3D \<Rightarrow> MeshConnectivity3D" where
  "scatter_vert_elements E m0 =
     fold (\<lambda>elem m.
             case get_element_verts E m elem of (verts, nv) \<Rightarrow>
               fold (\<lambda>i m. m\<lparr>vert_elements := (vert_elements m)
                         [vert_element_ptr m ! verts_at m verts i := elem],
                       vert_element_ptr := (vert_element_ptr m)
                         [verts_at m verts i :=
                            vert_element_ptr m ! verts_at m verts i + 1]\<rparr>)
                 [0..<nv] m)
       [0..<nelems m0] m0"

definition shift_vert_ptr :: "MeshConnectivity3D \<Rightarrow> MeshConnectivity3D" where
  "shift_vert_ptr m0 =
     fold (\<lambda>i m. m\<lparr>vert_element_ptr := (vert_element_ptr m)
                     [i := vert_element_ptr m ! (i - 1)]\<rparr>)
       (rev [1..<nverts m0 + 1]) m0"

definition init_vert_element_data ::
  "ElementTypes \<Rightarrow> MeshConnectivity3D \<Rightarrow> MeshConnectivity3D" where
  "init_vert_element_data E m0 =
     (let m1 = m0\<lparr>vert_element_ptr := replicate (nverts m0 + 1) 0\<rparr>;
          m2 = count_vert_elements E m1;
          m3 = accumulate_vert_ptr m2;
          m4 = m3\<lparr>vert_elements := replicate (vert_element_ptr m3 ! nverts m3) 0\<rparr>;
          m5 = scatter_vert_elements E m4;
          m6 = shift_vert_ptr m5
      in m6\<lparr>vert_element_ptr := (vert_element_ptr m6)[0 := 0]\<rparr>)"

text \<open>
  The first sweep of \<open>init_face_data\<close>, innermost loop first. \<open>match_adj_faces\<close> is the
  loop over the faces of one adjacent element, \<open>match_adj_elems\<close> the loop over the
  elements adjacent to one vertex of the face, \<open>locate_face\<close> the body of the loop over
  the local faces of an element, and \<open>number_faces\<close> the sweep over all elements.
\<close>

definition match_adj_faces ::
  "ElementTypes \<Rightarrow> ptr \<Rightarrow> nat \<Rightarrow> nat list \<Rightarrow> nat \<Rightarrow> nat
     \<Rightarrow> MeshConnectivity3D \<times> bool \<Rightarrow> MeshConnectivity3D \<times> bool" where
  "match_adj_faces E faces face face_verts nface_verts adj_elem st =
     (case get_element_faces E (fst st) adj_elem of (adj_faces, adj_nf) \<Rightarrow>
        fold (\<lambda>adj_face (m, face_located).
                if face_located then (m, face_located)
                else
                  (case get_element_global_face_verts E m adj_elem adj_face of
                     (adj_face_verts, adj_nface_verts) \<Rightarrow>
                       if faces_at m adj_faces adj_face = NO_LABEL \<and>
                          global_face_equality nface_verts face_verts
                            adj_nface_verts adj_face_verts
                       then
                         (if nface_verts = 3 then
                            ((faces_set faces face (ntri_faces m)
                               (faces_set adj_faces adj_face (ntri_faces m) m))
                               \<lparr>ntri_faces := ntri_faces m + 1\<rparr>, True)
                          else
                            ((faces_set faces face (nquad_faces m)
                               (faces_set adj_faces adj_face (nquad_faces m) m))
                               \<lparr>nquad_faces := nquad_faces m + 1\<rparr>, True))
                       else (m, face_located)))
          [0..<adj_nf] st)"

definition match_adj_elems ::
  "ElementTypes \<Rightarrow> nat \<Rightarrow> ptr \<Rightarrow> nat \<Rightarrow> nat list \<Rightarrow> nat \<Rightarrow> nat
     \<Rightarrow> MeshConnectivity3D \<times> bool \<Rightarrow> MeshConnectivity3D \<times> bool" where
  "match_adj_elems E elem faces face face_verts nface_verts mv st =
     (if snd st then st
      else
        (case get_adjacent_elements_from_vert (fst st) (face_verts ! mv) of
           (adj_elems, nadj_elems) \<Rightarrow>
             fold (\<lambda>k (m, face_located).
                     if face_located then (m, face_located)
                     else if vert_elements m ! (adj_elems + k) \<noteq> elem then
                       match_adj_faces E faces face face_verts nface_verts
                         (vert_elements m ! (adj_elems + k)) (m, face_located)
                     else (m, face_located))
               [0..<nadj_elems] st))"

definition locate_face ::
  "ElementTypes \<Rightarrow> nat \<Rightarrow> ptr \<Rightarrow> nat \<Rightarrow> MeshConnectivity3D \<Rightarrow> MeshConnectivity3D" where
  "locate_face E elem faces face m =
     (if faces_at m faces face = NO_LABEL then
        (case get_element_global_face_verts E m elem face of
           (face_verts, nface_verts) \<Rightarrow>
             (case fold (match_adj_elems E elem faces face face_verts nface_verts)
                     [0..<nface_verts] (m, False) of
                (m', face_located) \<Rightarrow>
                  if \<not> face_located then
                    (if nface_verts = 3 then
                       (faces_set faces face (ntri_faces m') m')
                         \<lparr>ntri_faces := ntri_faces m' + 1\<rparr>
                     else
                       (faces_set faces face (nquad_faces m') m')
                         \<lparr>nquad_faces := nquad_faces m' + 1\<rparr>)
                  else m'))
      else m)"

definition number_faces :: "ElementTypes \<Rightarrow> MeshConnectivity3D \<Rightarrow> MeshConnectivity3D" where
  "number_faces E m0 =
     fold (\<lambda>elem m.
             case get_element_faces E m elem of (faces, nf) \<Rightarrow>
               fold (locate_face E elem faces) [0..<nf] m)
       [0..<nelems m0] m0"

text \<open>The second sweep of \<open>init_face_data\<close>: the body for one local face, and the sweep.\<close>

definition record_face_element ::
  "ElementTypes \<Rightarrow> nat \<Rightarrow> ptr \<Rightarrow> nat \<Rightarrow> MeshConnectivity3D \<Rightarrow> MeshConnectivity3D" where
  "record_face_element E elem faces face m =
     (case get_element_global_face_verts E m elem face of
        (face_verts, nface_verts) \<Rightarrow>
          if nface_verts = 3 then
            (if tri_face_elements m ! (2 * faces_at m faces face) = NO_LABEL then
               m\<lparr>tri_face_elements := (tri_face_elements m)
                    [2 * faces_at m faces face := elem]\<rparr>
             else if tri_face_elements m ! (2 * faces_at m faces face + 1) = NO_LABEL then
               m\<lparr>tri_face_elements := (tri_face_elements m)
                    [2 * faces_at m faces face + 1 := elem]\<rparr>
             else m)
          else
            (let m' =
               (if quad_face_elements m ! (2 * faces_at m faces face) = NO_LABEL then
                  m\<lparr>quad_face_elements := (quad_face_elements m)
                       [2 * faces_at m faces face := elem]\<rparr>
                else if quad_face_elements m ! (2 * faces_at m faces face + 1) = NO_LABEL then
                  m\<lparr>quad_face_elements := (quad_face_elements m)
                       [2 * faces_at m faces face + 1 := elem]\<rparr>
                else m)
             in faces_set faces face (faces_at m' faces face + ntri_faces m') m'))"

definition set_face_elements :: "ElementTypes \<Rightarrow> MeshConnectivity3D \<Rightarrow> MeshConnectivity3D" where
  "set_face_elements E m0 =
     fold (\<lambda>elem m.
             case get_element_faces E m elem of (faces, nf) \<Rightarrow>
               fold (record_face_element E elem faces) [0..<nf] m)
       [0..<nelems m0] m0"

definition init_face_data :: "ElementTypes \<Rightarrow> MeshConnectivity3D \<Rightarrow> MeshConnectivity3D" where
  "init_face_data E m0 =
     (let m1 = m0\<lparr>tet_faces := replicate (TET_FACES E * ntets m0) NO_LABEL,
                  hex_faces := replicate (HEX_FACES E * nhex m0) NO_LABEL,
                  wedge_faces := replicate (WEDGE_FACES E * nwedge m0) NO_LABEL,
                  pyrmd_faces := replicate (PYRMD_FACES E * npyrmd m0) NO_LABEL,
                  ntri_faces := 0, nquad_faces := 0, nfaces := 0\<rparr>;
          m2 = number_faces E m1;
          m3 = m2\<lparr>nfaces := ntri_faces m2 + nquad_faces m2\<rparr>;
          m4 = m3\<lparr>tri_face_elements := replicate (2 * ntri_faces m3) NO_LABEL,
                  quad_face_elements := replicate (2 * nquad_faces m3) NO_LABEL\<rparr>
      in set_face_elements E m4)"

text \<open>
  \<open>init_edge_data\<close>: \<open>label_adj_edges\<close> is the loop over the edges of one adjacent
  element, \<open>number_edge\<close> the body of the loop over the local edges of an element. The
  local array \<open>v1\<close> is not initialised before \<open>get_element_edge_verts\<close> fills it; the
  model passes the empty list for its previous content.
\<close>

definition label_adj_edges ::
  "ElementTypes \<Rightarrow> nat list \<Rightarrow> nat \<Rightarrow> nat \<Rightarrow> MeshConnectivity3D \<Rightarrow> MeshConnectivity3D" where
  "label_adj_edges E v0 edge_num adj_elem m0 =
     (case get_element_edges E m0 adj_elem NULL of (adj_elem_edges, adj_ne) \<Rightarrow>
        fold (\<lambda>e1 m.
                if global_edge_equality v0 (get_element_edge_verts E m adj_elem e1 [])
                then edges_set adj_elem_edges e1 edge_num m
                else m)
          [0..<adj_ne] m0)"

definition number_edge ::
  "ElementTypes \<Rightarrow> nat \<Rightarrow> ptr \<Rightarrow> nat \<Rightarrow> MeshConnectivity3D \<Rightarrow> MeshConnectivity3D" where
  "number_edge E elem elem_edges e0 m0 =
     (if edges_at m0 elem_edges e0 = NO_LABEL then
        (let edge_num = nedges m0;
             m1 = m0\<lparr>nedges := nedges m0 + 1\<rparr>;
             m2 = edges_set elem_edges e0 edge_num m1;
             v0 = get_element_edge_verts E m2 elem e0 []
         in case get_adjacent_elements_from_vert m2 (v0 ! 0) of
              (adj_elems, nadj_elems) \<Rightarrow>
                fold (\<lambda>i m.
                        if vert_elements m ! (adj_elems + i) \<noteq> elem then
                          label_adj_edges E v0 edge_num (vert_elements m ! (adj_elems + i)) m
                        else m)
                  [0..<nadj_elems] m2)
      else m0)"

definition init_edge_data :: "ElementTypes \<Rightarrow> MeshConnectivity3D \<Rightarrow> MeshConnectivity3D" where
  "init_edge_data E m0 =
     (let m1 = m0\<lparr>nedges := 0,
                  tet_edges := replicate (TET_EDGES E * ntets m0) NO_LABEL,
                  hex_edges := replicate (HEX_EDGES E * nhex m0) NO_LABEL,
                  wedge_edges := replicate (WEDGE_EDGES E * nwedge m0) NO_LABEL,
                  pyrmd_edges := replicate (PYRMD_EDGES E * npyrmd m0) NO_LABEL\<rparr>
      in fold (\<lambda>elem m.
                 case get_element_edges E m elem NULL of (elem_edges, ne) \<Rightarrow>
                   fold (number_edge E elem elem_edges) [0..<ne] m)
           [0..<nelems m1] m1)"

text \<open>
  The constructor. Its arguments are the vertex count, the four element counts and the
  four flat arrays of vertex indices. The source reads \<open>TET_VERTS * ntets\<close> entries of
  \<open>tets\<close> (and likewise for the other shapes) and uses every entry as an index into an
  array of \<open>nverts + 1\<close> counters without a check: an array that is too short or an
  entry that is not below \<open>nverts\<close> is an out-of-bounds access. The model returns \<open>None\<close>
  for such an input and the constructed object otherwise.
\<close>

definition valid_input ::
  "ElementTypes \<Rightarrow> nat \<Rightarrow> nat \<Rightarrow> nat list \<Rightarrow> nat \<Rightarrow> nat list \<Rightarrow> nat \<Rightarrow> nat list
     \<Rightarrow> nat \<Rightarrow> nat list \<Rightarrow> bool" where
  "valid_input E nv nt tets nh hex nw wedge np pyrmd =
     (TET_VERTS E * nt \<le> length tets \<and> HEX_VERTS E * nh \<le> length hex \<and>
      WEDGE_VERTS E * nw \<le> length wedge \<and> PYRMD_VERTS E * np \<le> length pyrmd \<and>
      list_all (\<lambda>v. v < nv) (take (TET_VERTS E * nt) tets) \<and>
      list_all (\<lambda>v. v < nv) (take (HEX_VERTS E * nh) hex) \<and>
      list_all (\<lambda>v. v < nv) (take (WEDGE_VERTS E * nw) wedge) \<and>
      list_all (\<lambda>v. v < nv) (take (PYRMD_VERTS E * np) pyrmd))"

definition mesh_connectivity ::
  "ElementTypes \<Rightarrow> nat \<Rightarrow> nat \<Rightarrow> nat list \<Rightarrow> nat \<Rightarrow> nat list \<Rightarrow> nat \<Rightarrow> nat list
     \<Rightarrow> nat \<Rightarrow> nat list \<Rightarrow> MeshConnectivity3D option" where
  "mesh_connectivity E nv nt tets nh hex nw wedge np pyrmd =
     (if valid_input E nv nt tets nh hex nw wedge np pyrmd then
        Some (init_edge_data E (init_face_data E (init_vert_element_data E
          \<lparr>nverts = nv, ntets = nt, nhex = nh, nwedge = nw, npyrmd = np,
           nelems = nt + nh + nw + np,
           ntri_faces = 0, nquad_faces = 0, nfaces = 0, nedges = 0,
           tet_verts = take (TET_VERTS E * nt) tets,
           hex_verts = take (HEX_VERTS E * nh) hex,
           wedge_verts = take (WEDGE_VERTS E * nw) wedge,
           pyrmd_verts = take (PYRMD_VERTS E * np) pyrmd,
           vert_element_ptr = [], vert_elements = [],
           tet_faces = [], hex_faces = [], wedge_faces = [], pyrmd_faces = [],
           tri_face_elements = [], quad_face_elements = [],
           tet_edges = [], hex_edges = [], wedge_edges = [], pyrmd_edges = []\<rparr>)))
      else None)"

section \<open>Out-of-range element queries\<close>

text \<open>
  C10. For every element index \<open>elem \<ge> nelems\<close>, where \<open>nelems\<close> is the total element
  count \<open>ntets + nhex + nwedge + npyrmd\<close> set by the constructor, \<open>get_element_verts\<close>
  and \<open>get_element_faces\<close> return 0 and set the output pointer to \<open>NULL\<close>, and
  \<open>get_element_edges\<close> returns 0 and leaves the caller's pointer as it was. The results
  are the same for every content of the connectivity arrays: no array is read.
\<close>

theorem out_of_range_element_queries:
  assumes "nelems m = ntets m + nhex m + nwedge m + npyrmd m"
    and "nelems m \<le> elem"
  shows "get_element_verts E m elem = (NULL, 0)
       \<and> get_element_faces E m elem = (NULL, 0)
       \<and> get_element_edges E m elem edges = (edges, 0)"
  using assms
  by (simp add: get_element_verts_def get_element_faces_def get_element_edges_def)

section \<open>Block sparse matrix\<close>

text \<open>
  The class \<open>BSRMat\<close> as a record of the members that describe the nonzero pattern;
  the value store and the members that are only allocated by a factorisation are left
  out. The constructor copies \<open>nbrows + 1\<close> row pointers and \<open>nnz\<close> column indices.
\<close>

record BSRMat =
  nbrows :: nat
  nbcols :: nat
  nnz :: nat
  rowp :: "nat list"
  cols :: "nat list"

definition bsr_mat :: "nat \<Rightarrow> nat \<Rightarrow> nat \<Rightarrow> nat list \<Rightarrow> nat list \<Rightarrow> BSRMat" where
  "bsr_mat nr nc nz rowp0 cols0 =
     \<lparr>nbrows = nr, nbcols = nc, nnz = nz,
      rowp = take (nr + 1) rowp0, cols = take nz cols0\<rparr>"

text \<open>
  Modelled from the spec: \<open>find_value_index\<close> is declared in \<open>sparse_matrix.h\<close> and
  defined in \<open>sparse/sparse_matrix-inl.h\<close>, which is not among the sources. The
  specification describes it as a search within \<open>cols[rowp[row] .. rowp[row+1])\<close> for
  \<open>col\<close> that returns the position found, and the sentinel if \<open>col\<close> is absent; the
  model searches the range from its lower end.
\<close>

definition find_value_index :: "BSRMat \<Rightarrow> nat \<Rightarrow> nat \<Rightarrow> nat" where
  "find_value_index A row col =
     (case find (\<lambda>jp. cols A ! jp = col) [rowp A ! row..<rowp A ! (row + 1)] of
        Some jp \<Rightarrow> jp
      | None \<Rightarrow> NO_INDEX)"

lemma find_upt_None: "(find P [a..<b] = None) = (\<forall>j. a \<le> j \<and> j < b \<longrightarrow> \<not> P j)"
  by (auto simp: find_None_iff)

lemma find_upt_Some: "find P [a..<b] = Some j \<Longrightarrow> a \<le> j \<and> j < b \<and> P j"
proof -
  assume "find P [a..<b] = Some j"
  then have "j \<in> set [a..<b] \<and> P j"
    by (auto simp: find_Some_iff)
  then show ?thesis by simp
qed

text \<open>
  C9. For every matrix and block coordinates \<open>(row, col)\<close> with \<open>row < nbrows\<close>, whose
  row pointer \<open>rowp[row + 1]\<close> does not exceed the sentinel (as every value of the index
  type does): \<open>find_value_index\<close> returns \<open>NO_INDEX\<close> if and only if \<open>col\<close> does not
  occur in \<open>cols[rowp[row] .. rowp[row+1])\<close>, and otherwise it returns an index \<open>jp\<close>
  with \<open>rowp[row] \<le> jp < rowp[row+1]\<close> and \<open>cols[jp] = col\<close>.
\<close>

theorem find_value_index_sentinel:
  assumes "row < nbrows A" and "rowp A ! (row + 1) \<le> NO_INDEX"
  shows "((find_value_index A row col = NO_INDEX) =
           (\<forall>jp. rowp A ! row \<le> jp \<and> jp < rowp A ! (row + 1) \<longrightarrow> cols A ! jp \<noteq> col))
       \<and> (find_value_index A row col \<noteq> NO_INDEX \<longrightarrow>
           rowp A ! row \<le> find_value_index A row col \<and>
           find_value_index A row col < rowp A ! (row + 1) \<and>
           cols A ! find_value_index A row col = col)"
proof (cases "find (\<lambda>jp. cols A ! jp = col) [rowp A ! row..<rowp A ! (row + 1)]")
  case None
  have "find_value_index A row col = NO_INDEX"
    unfolding find_value_index_def None by simp
  moreover have "\<forall>jp. rowp A ! row \<le> jp \<and> jp < rowp A ! (row + 1) \<longrightarrow> cols A ! jp \<noteq> col"
    using None unfolding find_upt_None .
  ultimately show ?thesis by simp
next
  case (Some jp)
  have r: "find_value_index A row col = jp"
    unfolding find_value_index_def Some by simp
  have j: "rowp A ! row \<le> jp \<and> jp < rowp A ! (row + 1) \<and> cols A ! jp = col"
    using find_upt_Some[OF Some] .
  then have "jp \<noteq> NO_INDEX"
    using assms(2) by linarith
  then show ?thesis
    using r j by blast
qed

theorem find_value_index_sentinel_witness:
  "(0::nat) < nbrows (bsr_mat 2 2 3 [0, 2, 3] [0, 1, 1])
   \<and> rowp (bsr_mat 2 2 3 [0, 2, 3] [0, 1, 1]) ! (0 + 1) \<le> NO_INDEX
   \<and> find_value_index (bsr_mat 2 2 3 [0, 2, 3] [0, 1, 1]) 0 1 \<noteq> NO_INDEX
   \<and> find_value_index (bsr_mat 2 2 3 [0, 2, 3] [0, 1, 1]) 0 1 < 2
   \<and> cols (bsr_mat 2 2 3 [0, 2, 3] [0, 1, 1])
        ! find_value_index (bsr_mat 2 2 3 [0, 2, 3] [0, 1, 1]) 0 1 = 1"
proof -
  let ?A = "bsr_mat 2 2 3 [0, 2, 3] [0, 1, 1]"
  have h1: "(0::nat) < nbrows ?A"
    by (simp add: bsr_mat_def)
  have h2: "rowp ?A ! (0 + 1) \<le> NO_INDEX"
    by (simp add: bsr_mat_def NO_INDEX_def)
  have r: "rowp ?A ! 0 = 0" "rowp ?A ! (0 + 1) = 2" "cols ?A ! 1 = 1"
    by (simp_all add: bsr_mat_def)
  have "\<not> (\<forall>jp. rowp ?A ! 0 \<le> jp \<and> jp < rowp ?A ! (0 + 1) \<longrightarrow> cols ?A ! jp \<noteq> 1)"
    using r by (intro notI) (drule spec[of _ 1], simp)
  then have "find_value_index ?A 0 1 \<noteq> NO_INDEX"
    using find_value_index_sentinel[OF h1 h2, of 1] by blast
  then have "find_value_index ?A 0 1 < rowp ?A ! (0 + 1)
      \<and> cols ?A ! find_value_index ?A 0 1 = 1"
    using find_value_index_sentinel[OF h1 h2, of 1] by blast
  then show ?thesis
    using h1 h2 r \<open>find_value_index ?A 0 1 \<noteq> NO_INDEX\<close> by simp
qed

section \<open>Loop invariants\<close>

lemma fold_upt_invariant:
  assumes "P 0 s" and "\<And>i s. i < n \<Longrightarrow> P i s \<Longrightarrow> P (Suc i) (f i s)"
  shows "P n (fold f [0..<n] s)"
  using assms
proof (induction n)
  case 0
  then show ?case by simp
next
  case (Suc n)
  have "P n (fold f [0..<n] s)"
    using Suc.IH Suc.prems by simp
  then show ?case
    using Suc.prems(2)[of n] by simp
qed

lemma fold_invariant:
  assumes "P s" and "\<And>x s. x \<in> set xs \<Longrightarrow> P s \<Longrightarrow> P (f x s)"
  shows "P (fold f xs s)"
  using assms by (induction xs arbitrary: s) auto

section \<open>Element mesh\<close>

text \<open>
  The class \<open>ElementMesh\<close> as a record of its data members; \<open>mesh_nelems\<close> is the
  member \<open>nelems\<close>. The number of degrees of freedom per element is the constant
  \<open>Basis::ndof\<close> of the template argument and is an argument of the functions below.
\<close>

record ElementMesh =
  mesh_nelems :: nat
  num_dof :: nat
  element_dof :: "nat list"
  element_sign :: "int list"

text \<open>
  A projection object, as the three member functions the constructor calls:
  \<open>get_projection_index\<close> and \<open>get_projection_signs\<close> give the content of the local
  arrays \<open>index\<close> and \<open>signs\<close> after the call.
\<close>

record Projection =
  get_num_projection_elements :: nat
  get_projection_index :: "nat \<Rightarrow> nat list"
  get_projection_signs :: "nat \<Rightarrow> int list"

text \<open>
  The projection constructor \<open>ElementMesh(mesh, proj)\<close>. \<open>ndof\<close> is the number of
  degrees of freedom per element of the new mesh and \<open>ho_ndof\<close> that of the high-order
  mesh, so that \<open>horder_dof\<close> points at entry \<open>ho_ndof * j\<close> of the high-order arrays.
  The two new arrays are allocated without being initialised; the loop writes every
  entry, and the model starts them with zeros. Signs are C \<open>int\<close>s and are modelled as
  integers.
\<close>

definition project_element ::
  "nat \<Rightarrow> nat \<Rightarrow> ElementMesh \<Rightarrow> Projection \<Rightarrow> nat \<Rightarrow> nat \<Rightarrow> ElementMesh \<Rightarrow> ElementMesh" where
  "project_element ndof ho_ndof mesh proj j i em =
     (let elem = i + j * get_num_projection_elements proj;
          index = get_projection_index proj i;
          signs = get_projection_signs proj i
      in fold (\<lambda>k em.
                 em\<lparr>element_sign := (element_sign em)
                       [ndof * elem + k :=
                          signs ! k * element_sign mesh ! (ho_ndof * j + index ! k)],
                    element_dof := (element_dof em)
                       [ndof * elem + k := element_dof mesh ! (ho_ndof * j + index ! k)]\<rparr>)
           [0..<ndof] em)"

definition element_mesh_projection ::
  "nat \<Rightarrow> nat \<Rightarrow> ElementMesh \<Rightarrow> Projection \<Rightarrow> ElementMesh" where
  "element_mesh_projection ndof ho_ndof mesh proj =
     (let em0 = \<lparr>mesh_nelems = get_num_projection_elements proj * mesh_nelems mesh,
                 num_dof = num_dof mesh,
                 element_dof = replicate
                   (get_num_projection_elements proj * mesh_nelems mesh * ndof) 0,
                 element_sign = replicate
                   (get_num_projection_elements proj * mesh_nelems mesh * ndof) 0\<rparr>
      in fold (\<lambda>j em.
                 fold (project_element ndof ho_ndof mesh proj j)
                   [0..<get_num_projection_elements proj] em)
           [0..<mesh_nelems mesh] em0)"

lemma block_index_less: "e < e' \<Longrightarrow> k < n \<Longrightarrow> n * e + k < n * (e'::nat)"
proof -
  assume a: "e < e'" "k < n"
  have "n * e + k < n * e + n" using a by simp
  also have "\<dots> = n * Suc e" by simp
  also have "\<dots> \<le> n * e'" using a by (intro mult_le_mono2) simp
  finally show ?thesis .
qed

lemma block_index_bound: "e < N \<Longrightarrow> k < n \<Longrightarrow> n * e + k < N * (n::nat)"
  using block_index_less[of e N k n] by (simp add: mult.commute)

definition projected ::
  "nat \<Rightarrow> nat \<Rightarrow> ElementMesh \<Rightarrow> Projection \<Rightarrow> ElementMesh \<Rightarrow> nat \<Rightarrow> nat \<Rightarrow> bool" where
  "projected ndof ho_ndof mesh proj em e k =
     (element_dof em ! (ndof * e + k) =
        element_dof mesh ! (ho_ndof * (e div get_num_projection_elements proj)
          + get_projection_index proj (e mod get_num_projection_elements proj) ! k) \<and>
      element_sign em ! (ndof * e + k) =
        get_projection_signs proj (e mod get_num_projection_elements proj) ! k *
        element_sign mesh ! (ho_ndof * (e div get_num_projection_elements proj)
          + get_projection_index proj (e mod get_num_projection_elements proj) ! k))"

definition proj_inv ::
  "nat \<Rightarrow> nat \<Rightarrow> ElementMesh \<Rightarrow> Projection \<Rightarrow> nat \<Rightarrow> ElementMesh \<Rightarrow> bool" where
  "proj_inv ndof ho_ndof mesh proj n em =
     (mesh_nelems em = get_num_projection_elements proj * mesh_nelems mesh \<and>
      num_dof em = num_dof mesh \<and>
      length (element_dof em) = get_num_projection_elements proj * mesh_nelems mesh * ndof \<and>
      length (element_sign em) = get_num_projection_elements proj * mesh_nelems mesh * ndof \<and>
      (\<forall>e<n. \<forall>k<ndof. projected ndof ho_ndof mesh proj em e k))"

lemma project_element_inv:
  assumes j: "j < mesh_nelems mesh" and i: "i < get_num_projection_elements proj"
    and inv: "proj_inv ndof ho_ndof mesh proj (i + j * get_num_projection_elements proj) em"
  shows "proj_inv ndof ho_ndof mesh proj (Suc (i + j * get_num_projection_elements proj))
           (project_element ndof ho_ndof mesh proj j i em)"
proof -
  let ?np = "get_num_projection_elements proj"
  let ?e = "i + j * ?np"
  let ?L = "?np * mesh_nelems mesh * ndof"
  have ediv: "?e div ?np = j" and emod: "?e mod ?np = i"
    using i by simp_all
  have "?e < ?np * Suc j" using i by simp
  also have "\<dots> \<le> ?np * mesh_nelems mesh"
    using j by (intro mult_le_mono2) simp
  finally have e_lt: "?e < ?np * mesh_nelems mesh" .
  let ?P = "\<lambda>k em'. mesh_nelems em' = ?np * mesh_nelems mesh \<and> num_dof em' = num_dof mesh \<and>
      length (element_dof em') = ?L \<and> length (element_sign em') = ?L \<and>
      (\<forall>e<?e. \<forall>k'<ndof. projected ndof ho_ndof mesh proj em' e k') \<and>
      (\<forall>k'<k. projected ndof ho_ndof mesh proj em' ?e k')"
  let ?body = "\<lambda>k em. em\<lparr>element_sign := (element_sign em)
                       [ndof * ?e + k :=
                          get_projection_signs proj i ! k *
                          element_sign mesh ! (ho_ndof * j + get_projection_index proj i ! k)],
                    element_dof := (element_dof em)
                       [ndof * ?e + k :=
                          element_dof mesh ! (ho_ndof * j + get_projection_index proj i ! k)]\<rparr>"
  have "?P ndof (fold ?body [0..<ndof] em)"
  proof (rule fold_upt_invariant[where P = ?P and n = ndof and f = ?body and s = em])
    show "?P 0 em"
      using inv by (simp add: proj_inv_def)
  next
    fix k em'
    assume k: "k < ndof" and P: "?P k em'"
    have in_range: "ndof * ?e + k < ?L"
      using block_index_bound[OF e_lt k] .
    have other: "ndof * e + k' \<noteq> ndof * ?e + k" if "e < ?e" "k' < ndof" for e k'
      using block_index_less[OF that] by simp
    have len: "length (element_dof (?body k em')) = ?L" "length (element_sign (?body k em')) = ?L"
      "mesh_nelems (?body k em') = ?np * mesh_nelems mesh" "num_dof (?body k em') = num_dof mesh"
      using P by simp_all
    have old: "projected ndof ho_ndof mesh proj (?body k em') e k'" if "e < ?e" "k' < ndof" for e k'
    proof -
      have "projected ndof ho_ndof mesh proj em' e k'" using P that by blast
      then show ?thesis
        using other[OF that] by (simp add: projected_def)
    qed
    have cur: "projected ndof ho_ndof mesh proj (?body k em') ?e k'" if "k' < Suc k" for k'
    proof (cases "k' = k")
      case True
      then show ?thesis
        using in_range P unfolding projected_def ediv emod by simp
    next
      case False
      then have "k' < k" using that by simp
      then have "projected ndof ho_ndof mesh proj em' ?e k'" using P by blast
      then show ?thesis
        using False unfolding projected_def by simp
    qed
    show "?P (Suc k) (?body k em')"
      using len old cur by blast
  qed
  then have r: "?P ndof (project_element ndof ho_ndof mesh proj j i em)"
    unfolding project_element_def Let_def .
  show ?thesis
    unfolding proj_inv_def
  proof (intro conjI allI impI)
    fix e k
    assume "e < Suc ?e" "k < ndof"
    then show "projected ndof ho_ndof mesh proj (project_element ndof ho_ndof mesh proj j i em) e k"
      using r by (cases "e = ?e") auto
  qed (use r in simp_all)
qed

lemma element_mesh_projection_inv:
  "proj_inv ndof ho_ndof mesh proj (mesh_nelems mesh * get_num_projection_elements proj)
     (element_mesh_projection ndof ho_ndof mesh proj)"
proof -
  let ?np = "get_num_projection_elements proj"
  let ?P = "\<lambda>j em. proj_inv ndof ho_ndof mesh proj (j * ?np) em"
  show ?thesis
    unfolding element_mesh_projection_def Let_def
  proof (rule fold_upt_invariant[where P = ?P])
    show "?P 0 \<lparr>mesh_nelems = ?np * mesh_nelems mesh, num_dof = num_dof mesh,
        element_dof = replicate (?np * mesh_nelems mesh * ndof) 0,
        element_sign = replicate (?np * mesh_nelems mesh * ndof) 0\<rparr>"
      by (simp add: proj_inv_def)
  next
    fix j em
    assume j: "j < mesh_nelems mesh" and P: "?P j em"
    have "proj_inv ndof ho_ndof mesh proj (?np + j * ?np)
            (fold (project_element ndof ho_ndof mesh proj j) [0..<?np] em)"
    proof (rule fold_upt_invariant[where P = "\<lambda>i em. proj_inv ndof ho_ndof mesh proj (i + j * ?np) em"])
      show "proj_inv ndof ho_ndof mesh proj (0 + j * ?np) em"
        using P by simp
    next
      fix i em'
      assume "i < ?np" "proj_inv ndof ho_ndof mesh proj (i + j * ?np) em'"
      then show "proj_inv ndof ho_ndof mesh proj (Suc i + j * ?np)
                   (project_element ndof ho_ndof mesh proj j i em')"
        using project_element_inv[OF j] by simp
    qed
    then show "?P (Suc j) (fold (project_element ndof ho_ndof mesh proj j) [0..<?np] em)"
      by simp
  qed
qed

text \<open>
  C7. The projected mesh allocates no new degree of freedom: its \<open>num_dof\<close> is the
  parent's, its element count is \<open>get_num_projection_elements()\<close> times the parent's,
  and for every parent element \<open>j\<close>, sub-element \<open>i\<close> and local slot \<open>k\<close> the stored
  degree of freedom is the parent element's at \<open>index[k]\<close> and the stored sign is
  \<open>signs[k]\<close> times the parent element's sign at \<open>index[k]\<close>.
\<close>

theorem projection_mesh_gathers_parent_dof:
  assumes "j < mesh_nelems mesh" and "i < get_num_projection_elements proj" and "k < ndof"
  shows "num_dof (element_mesh_projection ndof ho_ndof mesh proj) = num_dof mesh
       \<and> mesh_nelems (element_mesh_projection ndof ho_ndof mesh proj) =
           get_num_projection_elements proj * mesh_nelems mesh
       \<and> element_dof (element_mesh_projection ndof ho_ndof mesh proj)
             ! (ndof * (i + j * get_num_projection_elements proj) + k) =
           element_dof mesh ! (ho_ndof * j + get_projection_index proj i ! k)
       \<and> element_sign (element_mesh_projection ndof ho_ndof mesh proj)
             ! (ndof * (i + j * get_num_projection_elements proj) + k) =
           get_projection_signs proj i ! k *
           element_sign mesh ! (ho_ndof * j + get_projection_index proj i ! k)"
proof -
  let ?np = "get_num_projection_elements proj"
  let ?e = "i + j * ?np"
  have ediv: "?e div ?np = j" and emod: "?e mod ?np = i"
    using assms(2) by simp_all
  have "?e < ?np * Suc j" using assms(2) by simp
  also have "\<dots> \<le> ?np * mesh_nelems mesh"
    using assms(1) by (intro mult_le_mono2) simp
  finally have e_lt: "?e < mesh_nelems mesh * ?np" by (simp add: mult.commute)
  have "projected ndof ho_ndof mesh proj (element_mesh_projection ndof ho_ndof mesh proj) ?e k"
    using element_mesh_projection_inv[of ndof ho_ndof mesh proj] e_lt assms(3)
    unfolding proj_inv_def by blast
  then show ?thesis
    using element_mesh_projection_inv[of ndof ho_ndof mesh proj] ediv emod
    unfolding proj_inv_def projected_def by simp
qed


definition example_parent_mesh :: ElementMesh where
  "example_parent_mesh =
     \<lparr>mesh_nelems = 1, num_dof = 3, element_dof = [2, 0, 1], element_sign = [1, - 1, 1]\<rparr>"

definition example_projection :: Projection where
  "example_projection =
     \<lparr>get_num_projection_elements = 2,
      get_projection_index = (\<lambda>i. [i, i + 1]),
      get_projection_signs = (\<lambda>i. [1, - 1])\<rparr>"

theorem projection_mesh_gathers_parent_dof_witness:
  "(0::nat) < mesh_nelems example_parent_mesh
   \<and> (1::nat) < get_num_projection_elements example_projection
   \<and> num_dof (element_mesh_projection 2 3 example_parent_mesh example_projection) = 3
   \<and> mesh_nelems (element_mesh_projection 2 3 example_parent_mesh example_projection) = 2
   \<and> element_dof (element_mesh_projection 2 3 example_parent_mesh example_projection) ! 3 = 1
   \<and> element_sign (element_mesh_projection 2 3 example_parent_mesh example_projection) ! 3 = - 1"
proof -
  have h1: "(0::nat) < mesh_nelems example_parent_mesh"
    by (simp add: example_parent_mesh_def)
  have h2: "(1::nat) < get_num_projection_elements example_projection"
    by (simp add: example_projection_def)
  have h3: "(1::nat) < 2" by simp
  show ?thesis
    using h1 h2 projection_mesh_gathers_parent_dof[OF h1 h2 h3, of 3]
    by (simp add: example_parent_mesh_def example_projection_def)
qed

section \<open>Frame properties of the connectivity\<close>

text \<open>
  The members that the face and edge numbering never write: the counts, the
  element-to-vertex arrays and the vertex-to-element adjacency.
\<close>

definition topo ::
  "MeshConnectivity3D \<Rightarrow> (nat \<times> nat \<times> nat \<times> nat \<times> nat \<times> nat) \<times>
     (nat list \<times> nat list \<times> nat list \<times> nat list) \<times> (nat list \<times> nat list)" where
  "topo m = ((nverts m, ntets m, nhex m, nwedge m, npyrmd m, nelems m),
             (tet_verts m, hex_verts m, wedge_verts m, pyrmd_verts m),
             (vert_element_ptr m, vert_elements m))"

lemma topo_fields:
  assumes "topo m = topo m'"
  shows "nverts m = nverts m'" "ntets m = ntets m'" "nhex m = nhex m'" "nwedge m = nwedge m'"
    "npyrmd m = npyrmd m'" "nelems m = nelems m'"
    "tet_verts m = tet_verts m'" "hex_verts m = hex_verts m'"
    "wedge_verts m = wedge_verts m'" "pyrmd_verts m = pyrmd_verts m'"
    "vert_element_ptr m = vert_element_ptr m'" "vert_elements m = vert_elements m'"
  using assms by (simp_all add: topo_def)

lemma topo_accessors:
  assumes "topo m = topo m'"
  shows "get_element_faces E m = get_element_faces E m'"
    "get_element_verts E m = get_element_verts E m'"
    "get_element_edges E m = get_element_edges E m'"
    "get_element_face_verts E m = get_element_face_verts E m'"
    "get_element_global_face_verts E m = get_element_global_face_verts E m'"
    "get_element_edge_verts E m = get_element_edge_verts E m'"
    "get_adjacent_elements_from_vert m = get_adjacent_elements_from_vert m'"
    "verts_at m = verts_at m'"
proof -
  note f = topo_fields[OF assms]
  show "get_element_faces E m = get_element_faces E m'"
    by (intro ext) (simp add: get_element_faces_def f)
  show "get_element_verts E m = get_element_verts E m'"
    by (intro ext) (simp add: get_element_verts_def f)
  show "get_element_edges E m = get_element_edges E m'"
    by (intro ext) (simp add: get_element_edges_def f)
  show fv: "get_element_face_verts E m = get_element_face_verts E m'"
    by (intro ext) (simp add: get_element_face_verts_def f Let_def)
  show "get_element_global_face_verts E m = get_element_global_face_verts E m'"
    by (intro ext) (simp add: get_element_global_face_verts_def fv)
  show "get_element_edge_verts E m = get_element_edge_verts E m'"
    by (intro ext) (simp add: get_element_edge_verts_def f Let_def)
  show "get_adjacent_elements_from_vert m = get_adjacent_elements_from_vert m'"
    by (intro ext) (simp add: get_adjacent_elements_from_vert_def f)
  show "verts_at m = verts_at m'"
    by (intro ext) (simp add: verts_at_def f split: ptr.splits shape.splits)
qed


definition elem_kind :: "MeshConnectivity3D \<Rightarrow> nat \<Rightarrow> (shape \<times> nat) option" where
  "elem_kind m e =
     (if e < ntets m then Some (Tet, e)
      else if e < ntets m + nhex m then Some (Hex, e - ntets m)
      else if e < ntets m + nhex m + nwedge m then Some (Wedge, e - ntets m - nhex m)
      else if e < ntets m + nhex m + nwedge m + npyrmd m then
        Some (Pyrmd, e - ntets m - nhex m - nwedge m)
      else None)"

definition shape_count :: "MeshConnectivity3D \<Rightarrow> shape \<Rightarrow> nat" where
  "shape_count m sh = (case sh of Tet \<Rightarrow> ntets m | Hex \<Rightarrow> nhex m | Wedge \<Rightarrow> nwedge m
                        | Pyrmd \<Rightarrow> npyrmd m)"

definition faces_per :: "ElementTypes \<Rightarrow> shape \<Rightarrow> nat" where
  "faces_per E sh = (case sh of Tet \<Rightarrow> TET_FACES E | Hex \<Rightarrow> HEX_FACES E
                      | Wedge \<Rightarrow> WEDGE_FACES E | Pyrmd \<Rightarrow> PYRMD_FACES E)"

definition faces_arr :: "MeshConnectivity3D \<Rightarrow> shape \<Rightarrow> nat list" where
  "faces_arr m sh = (case sh of Tet \<Rightarrow> tet_faces m | Hex \<Rightarrow> hex_faces m
                      | Wedge \<Rightarrow> wedge_faces m | Pyrmd \<Rightarrow> pyrmd_faces m)"

lemma elem_kind_topo: "topo m = topo m' \<Longrightarrow> elem_kind m = elem_kind m'"
  by (intro ext) (simp add: elem_kind_def topo_def)

lemma shape_count_topo: "topo m = topo m' \<Longrightarrow> shape_count m = shape_count m'"
  by (intro ext) (simp add: shape_count_def topo_def split: shape.splits)

lemma elem_kind_inj:
  "elem_kind m e = Some k \<Longrightarrow> elem_kind m e' = Some k \<Longrightarrow> e = e'"
  by (auto simp: elem_kind_def split: if_splits)

lemma elem_kind_bound:
  "elem_kind m e = Some (sh, l) \<Longrightarrow> l < shape_count m sh"
  by (auto simp: elem_kind_def shape_count_def split: if_splits)

lemma elem_kind_lt:
  "elem_kind m e = Some k \<Longrightarrow> e < ntets m + nhex m + nwedge m + npyrmd m"
  by (auto simp: elem_kind_def split: if_splits)

lemma elem_kind_None:
  "(elem_kind m e = None) = (ntets m + nhex m + nwedge m + npyrmd m \<le> e)"
  by (auto simp: elem_kind_def)

lemma get_element_faces_kind:
  "get_element_faces E m e =
     (case elem_kind m e of
        Some (sh, l) \<Rightarrow> (Ptr sh (faces_per E sh * l), faces_per E sh)
      | None \<Rightarrow> (NULL, 0))"
  by (simp add: get_element_faces_def elem_kind_def faces_per_def)

lemma faces_at_arr: "faces_at m (Ptr sh off) i = faces_arr m sh ! (off + i)"
  by (simp add: faces_at_def faces_arr_def split: shape.splits)

lemma faces_arr_set:
  "faces_arr (faces_set (Ptr sh off) i v m) sh' =
     (if sh' = sh then (faces_arr m sh)[off + i := v] else faces_arr m sh')"
  by (simp add: faces_set_def faces_arr_def split: shape.splits)

lemma faces_set_frame:
  "topo (faces_set p i v m) = topo m"
  "ntri_faces (faces_set p i v m) = ntri_faces m"
  "nquad_faces (faces_set p i v m) = nquad_faces m"
  "nfaces (faces_set p i v m) = nfaces m"
  "tri_face_elements (faces_set p i v m) = tri_face_elements m"
  "quad_face_elements (faces_set p i v m) = quad_face_elements m"
  by (simp_all add: faces_set_def topo_def split: ptr.splits shape.splits)

definition faces_wf :: "ElementTypes \<Rightarrow> MeshConnectivity3D \<Rightarrow> bool" where
  "faces_wf E m = (\<forall>sh. length (faces_arr m sh) = faces_per E sh * shape_count m sh)"

definition face_lbl :: "ElementTypes \<Rightarrow> MeshConnectivity3D \<Rightarrow> nat \<Rightarrow> nat \<Rightarrow> nat" where
  "face_lbl E m e f = faces_at m (fst (get_element_faces E m e)) f"

definition face_put ::
  "ElementTypes \<Rightarrow> nat \<Rightarrow> nat \<Rightarrow> nat \<Rightarrow> MeshConnectivity3D \<Rightarrow> MeshConnectivity3D" where
  "face_put E e f v m = faces_set (fst (get_element_faces E m e)) f v m"

definition fslot :: "ElementTypes \<Rightarrow> MeshConnectivity3D \<Rightarrow> nat \<Rightarrow> nat \<Rightarrow> bool" where
  "fslot E m e f = (f < snd (get_element_faces E m e))"

lemma fslot_topo: "topo m = topo m' \<Longrightarrow> fslot E m = fslot E m'"
  by (intro ext) (simp add: fslot_def topo_accessors(1)[of m m'])

lemma fslot_kind:
  "fslot E m e f = (\<exists>sh l. elem_kind m e = Some (sh, l) \<and> f < faces_per E sh)"
  by (auto simp: fslot_def get_element_faces_kind split: option.splits)

lemma fslot_elem: "fslot E m e f \<Longrightarrow> e < ntets m + nhex m + nwedge m + npyrmd m"
  by (auto simp: fslot_kind dest: elem_kind_lt)

lemma block_index_inj:
  "n * a + i = n * b + j \<Longrightarrow> i < n \<Longrightarrow> j < n \<Longrightarrow> a = b \<and> i = (j::nat)"
proof -
  assume a: "n * a + i = n * b + j" "i < n" "j < n"
  have d: "(n * a + i) div n = a" "(n * b + j) div n = b"
    using a(2,3) by simp_all
  have "(n * a + i) div n = (n * b + j) div n"
    using a(1) by simp
  then have "a = b" unfolding d .
  then show ?thesis using a(1) by simp
qed

lemma face_put_frame:
  "topo (face_put E e f v m) = topo m"
  "ntri_faces (face_put E e f v m) = ntri_faces m"
  "nquad_faces (face_put E e f v m) = nquad_faces m"
  "nfaces (face_put E e f v m) = nfaces m"
  "tri_face_elements (face_put E e f v m) = tri_face_elements m"
  "quad_face_elements (face_put E e f v m) = quad_face_elements m"
  by (simp_all add: face_put_def faces_set_frame)

lemma face_put_wf: "faces_wf E m \<Longrightarrow> faces_wf E (face_put E e f v m)"
proof -
  assume wf: "faces_wf E m"
  have sc: "shape_count (face_put E e f v m) = shape_count m"
    by (rule shape_count_topo) (rule face_put_frame)
  show ?thesis
  proof (cases "elem_kind m e")
    case None
    then show ?thesis
      using wf by (simp add: face_put_def get_element_faces_kind faces_set_def)
  next
    case (Some k)
    obtain sh l where k: "k = (sh, l)" by (cases k)
    show ?thesis
      unfolding faces_wf_def sc
      using wf Some k
      by (simp add: face_put_def get_element_faces_kind faces_arr_set faces_wf_def)
  qed
qed

lemma face_lbl_put:
  assumes wf: "faces_wf E m" and s: "fslot E m e f" and s': "fslot E m e' f'"
  shows "face_lbl E (face_put E e f v m) e' f' =
           (if e' = e \<and> f' = f then v else face_lbl E m e' f')"
proof -
  obtain sh l where k: "elem_kind m e = Some (sh, l)" and f: "f < faces_per E sh"
    using s by (auto simp: fslot_kind)
  obtain sh' l' where k': "elem_kind m e' = Some (sh', l')" and f': "f' < faces_per E sh'"
    using s' by (auto simp: fslot_kind)
  have gf: "get_element_faces E (face_put E e f v m) = get_element_faces E m"
    by (rule topo_accessors) (rule face_put_frame)
  have l: "l < shape_count m sh" and l': "l' < shape_count m sh'"
    using k k' by (auto dest: elem_kind_bound)
  have in_range: "faces_per E sh * l + f < length (faces_arr m sh)"
    using wf block_index_bound[OF l f] by (simp add: faces_wf_def mult.commute)
  have lhs: "face_lbl E (face_put E e f v m) e' f' =
      (if sh' = sh then (faces_arr m sh)[faces_per E sh * l + f := v] else faces_arr m sh')
        ! (faces_per E sh' * l' + f')"
    unfolding face_lbl_def gf
    by (simp add: face_put_def get_element_faces_kind k k' faces_at_arr faces_arr_set)
  have rhs: "face_lbl E m e' f' = faces_arr m sh' ! (faces_per E sh' * l' + f')"
    by (simp add: face_lbl_def get_element_faces_kind k' faces_at_arr)
  show ?thesis
  proof (cases "e' = e \<and> f' = f")
    case True
    then have "sh' = sh" "l' = l" using k k' by simp_all
    then show ?thesis
      using True lhs in_range by simp
  next
    case False
    have "sh' = sh \<Longrightarrow> faces_per E sh * l + f \<noteq> faces_per E sh' * l' + f'"
    proof
      assume same: "sh' = sh" and eq: "faces_per E sh * l + f = faces_per E sh' * l' + f'"
      have "l = l' \<and> f = f'"
        using block_index_inj[of "faces_per E sh" l f l' f'] eq same f f' by simp
      then have "e = e'" "f = f'"
        using elem_kind_inj[of m e "(sh, l)" e'] k k' same by simp_all
      then show False using False by simp
    qed
    then show ?thesis
      using False lhs rhs by auto
  qed
qed

section \<open>Labelling invariant\<close>

text \<open>
  The bookkeeping of the face numbering, stated for an arbitrary set \<open>S\<close> of slots
  (local faces of elements): \<open>el\<close> gives the element of a slot, \<open>cls\<close> its class
  (triangle or quadrilateral), \<open>tup\<close> its canonical vertex tuple, \<open>lbl\<close> its current
  label and \<open>cnt\<close> the current value of the counter of a class. The invariant says that
  every label is below the counter of its class, that two different slots with the same
  label and class lie in different elements and have the same canonical tuple, that no
  three different slots share a label, and that every number below a counter labels some
  slot.
\<close>

definition linv ::
  "'a set \<Rightarrow> ('a \<Rightarrow> nat) \<Rightarrow> ('a \<Rightarrow> 'c) \<Rightarrow> ('a \<Rightarrow> 'b) \<Rightarrow> ('a \<Rightarrow> nat) \<Rightarrow> ('c \<Rightarrow> nat) \<Rightarrow> bool" where
  "linv S el cls tup lbl cnt =
     ((\<forall>s\<in>S. lbl s \<noteq> NO_LABEL \<longrightarrow> lbl s < cnt (cls s)) \<and>
      (\<forall>s\<in>S. \<forall>t\<in>S. lbl s \<noteq> NO_LABEL \<longrightarrow> lbl s = lbl t \<longrightarrow> cls s = cls t \<longrightarrow> s \<noteq> t \<longrightarrow>
         el s \<noteq> el t \<and> tup s = tup t) \<and>
      (\<forall>s\<in>S. \<forall>t\<in>S. \<forall>u\<in>S. lbl s \<noteq> NO_LABEL \<longrightarrow> lbl s = lbl t \<longrightarrow> lbl s = lbl u \<longrightarrow>
         cls s = cls t \<longrightarrow> cls s = cls u \<longrightarrow> s = t \<or> s = u \<or> t = u) \<and>
      (\<forall>c. \<forall>k<cnt c. \<exists>s\<in>S. cls s = c \<and> lbl s = k))"

lemma linvD:
  assumes "linv S el cls tup lbl cnt"
  shows "\<And>t. t \<in> S \<Longrightarrow> lbl t \<noteq> NO_LABEL \<Longrightarrow> lbl t < cnt (cls t)"
    and "\<And>t u. t \<in> S \<Longrightarrow> u \<in> S \<Longrightarrow> lbl t \<noteq> NO_LABEL \<Longrightarrow> lbl t = lbl u \<Longrightarrow> cls t = cls u
      \<Longrightarrow> t \<noteq> u \<Longrightarrow> el t \<noteq> el u \<and> tup t = tup u"
    and "\<And>t u w. t \<in> S \<Longrightarrow> u \<in> S \<Longrightarrow> w \<in> S \<Longrightarrow> lbl t \<noteq> NO_LABEL \<Longrightarrow> lbl t = lbl u
      \<Longrightarrow> lbl t = lbl w \<Longrightarrow> cls t = cls u \<Longrightarrow> cls t = cls w \<Longrightarrow> t = u \<or> t = w \<or> u = w"
    and "\<And>c k. k < cnt c \<Longrightarrow> \<exists>t\<in>S. cls t = c \<and> lbl t = k"
proof -
  have all: "(\<forall>s\<in>S. lbl s \<noteq> NO_LABEL \<longrightarrow> lbl s < cnt (cls s)) \<and>
      (\<forall>s\<in>S. \<forall>t\<in>S. lbl s \<noteq> NO_LABEL \<longrightarrow> lbl s = lbl t \<longrightarrow> cls s = cls t \<longrightarrow> s \<noteq> t \<longrightarrow>
         el s \<noteq> el t \<and> tup s = tup t) \<and>
      (\<forall>s\<in>S. \<forall>t\<in>S. \<forall>u\<in>S. lbl s \<noteq> NO_LABEL \<longrightarrow> lbl s = lbl t \<longrightarrow> lbl s = lbl u \<longrightarrow>
         cls s = cls t \<longrightarrow> cls s = cls u \<longrightarrow> s = t \<or> s = u \<or> t = u) \<and>
      (\<forall>c. \<forall>k<cnt c. \<exists>s\<in>S. cls s = c \<and> lbl s = k)"
    using assms unfolding linv_def .
  have a: "\<forall>s\<in>S. lbl s \<noteq> NO_LABEL \<longrightarrow> lbl s < cnt (cls s)"
    using all by (rule conjunct1)
  have b: "\<forall>s\<in>S. \<forall>t\<in>S. lbl s \<noteq> NO_LABEL \<longrightarrow> lbl s = lbl t \<longrightarrow> cls s = cls t \<longrightarrow> s \<noteq> t \<longrightarrow>
         el s \<noteq> el t \<and> tup s = tup t"
    using all[THEN conjunct2] by (rule conjunct1)
  have c: "\<forall>s\<in>S. \<forall>t\<in>S. \<forall>u\<in>S. lbl s \<noteq> NO_LABEL \<longrightarrow> lbl s = lbl t \<longrightarrow> lbl s = lbl u \<longrightarrow>
         cls s = cls t \<longrightarrow> cls s = cls u \<longrightarrow> s = t \<or> s = u \<or> t = u"
    using all[THEN conjunct2, THEN conjunct2] by (rule conjunct1)
  have d: "\<forall>c. \<forall>k<cnt c. \<exists>s\<in>S. cls s = c \<and> lbl s = k"
    using all[THEN conjunct2, THEN conjunct2] by (rule conjunct2)
  show "\<And>t. t \<in> S \<Longrightarrow> lbl t \<noteq> NO_LABEL \<Longrightarrow> lbl t < cnt (cls t)"
    using a by blast
  show "\<And>t u. t \<in> S \<Longrightarrow> u \<in> S \<Longrightarrow> lbl t \<noteq> NO_LABEL \<Longrightarrow> lbl t = lbl u \<Longrightarrow> cls t = cls u
      \<Longrightarrow> t \<noteq> u \<Longrightarrow> el t \<noteq> el u \<and> tup t = tup u"
    using b by (elim ballE; blast)
  show "\<And>t u w. t \<in> S \<Longrightarrow> u \<in> S \<Longrightarrow> w \<in> S \<Longrightarrow> lbl t \<noteq> NO_LABEL \<Longrightarrow> lbl t = lbl u
      \<Longrightarrow> lbl t = lbl w \<Longrightarrow> cls t = cls u \<Longrightarrow> cls t = cls w \<Longrightarrow> t = u \<or> t = w \<or> u = w"
  proof -
    fix t u w
    assume h: "t \<in> S" "u \<in> S" "w \<in> S" "lbl t \<noteq> NO_LABEL" "lbl t = lbl u"
      "lbl t = lbl w" "cls t = cls u" "cls t = cls w"
    from c h(1) have "\<forall>t'\<in>S. \<forall>u'\<in>S. lbl t \<noteq> NO_LABEL \<longrightarrow> lbl t = lbl t' \<longrightarrow> lbl t = lbl u' \<longrightarrow>
         cls t = cls t' \<longrightarrow> cls t = cls u' \<longrightarrow> t = t' \<or> t = u' \<or> t' = u'" by (rule bspec)
    from this h(2) have "\<forall>u'\<in>S. lbl t \<noteq> NO_LABEL \<longrightarrow> lbl t = lbl u \<longrightarrow> lbl t = lbl u' \<longrightarrow>
         cls t = cls u \<longrightarrow> cls t = cls u' \<longrightarrow> t = u \<or> t = u' \<or> u = u'" by (rule bspec)
    from this h(3) have "lbl t \<noteq> NO_LABEL \<longrightarrow> lbl t = lbl u \<longrightarrow> lbl t = lbl w \<longrightarrow>
         cls t = cls u \<longrightarrow> cls t = cls w \<longrightarrow> t = u \<or> t = w \<or> u = w" by (rule bspec)
    then show "t = u \<or> t = w \<or> u = w" using h(4-8) by (elim impE)
  qed
  show "\<And>c k. k < cnt c \<Longrightarrow> \<exists>t\<in>S. cls t = c \<and> lbl t = k"
    using d by blast
qed

lemma linvI:
  assumes "\<And>t. t \<in> S \<Longrightarrow> lbl t \<noteq> NO_LABEL \<Longrightarrow> lbl t < cnt (cls t)"
    and "\<And>t u. t \<in> S \<Longrightarrow> u \<in> S \<Longrightarrow> lbl t \<noteq> NO_LABEL \<Longrightarrow> lbl t = lbl u \<Longrightarrow> cls t = cls u
      \<Longrightarrow> t \<noteq> u \<Longrightarrow> el t \<noteq> el u \<and> tup t = tup u"
    and "\<And>t u w. t \<in> S \<Longrightarrow> u \<in> S \<Longrightarrow> w \<in> S \<Longrightarrow> lbl t \<noteq> NO_LABEL \<Longrightarrow> lbl t = lbl u
      \<Longrightarrow> lbl t = lbl w \<Longrightarrow> cls t = cls u \<Longrightarrow> cls t = cls w \<Longrightarrow> t = u \<or> t = w \<or> u = w"
    and "\<And>c k. k < cnt c \<Longrightarrow> \<exists>t\<in>S. cls t = c \<and> lbl t = k"
  shows "linv S el cls tup lbl cnt"
  unfolding linv_def
proof (intro conjI ballI allI impI)
  fix t assume "t \<in> S" "lbl t \<noteq> NO_LABEL"
  then show "lbl t < cnt (cls t)" by (rule assms(1))
next
  fix t u assume "t \<in> S" "u \<in> S" "lbl t \<noteq> NO_LABEL" "lbl t = lbl u" "cls t = cls u" "t \<noteq> u"
  then have "el t \<noteq> el u \<and> tup t = tup u" by (rule assms(2))
  then show "el t \<noteq> el u" "tup t = tup u" by simp_all
next
  fix t u w assume "t \<in> S" "u \<in> S" "w \<in> S" "lbl t \<noteq> NO_LABEL" "lbl t = lbl u"
    "lbl t = lbl w" "cls t = cls u" "cls t = cls w"
  then show "t = u \<or> t = w \<or> u = w" by (rule assms(3))
next
  fix c k assume "k < cnt c"
  then show "\<exists>t\<in>S. cls t = c \<and> lbl t = k" by (rule assms(4))
qed

lemma linv_label_new:
  assumes inv: "linv S el cls tup lbl cnt" and s: "s \<in> S" and un: "lbl s = NO_LABEL"
    and lt: "cnt (cls s) < NO_LABEL"
    and l1: "lbl' s = cnt (cls s)" and l2: "\<And>t. t \<in> S \<Longrightarrow> t \<noteq> s \<Longrightarrow> lbl' t = lbl t"
    and c1: "cnt' (cls s) = cnt (cls s) + 1" and c2: "\<And>c. c \<noteq> cls s \<Longrightarrow> cnt' c = cnt c"
  shows "linv S el cls tup lbl' cnt'"
proof -
  let ?v = "cnt (cls s)"
  note i1 = linvD(1)[OF inv] and i2 = linvD(2)[OF inv] and i3 = linvD(3)[OF inv]
    and i4 = linvD(4)[OF inv]
  have mono: "cnt c \<le> cnt' c" for c
    by (cases "c = cls s") (simp_all add: c1 c2)
  have fresh: "lbl t \<noteq> ?v" if "t \<in> S" "cls t = cls s" for t
  proof (cases "lbl t = NO_LABEL")
    case True
    then show ?thesis using lt by simp
  next
    case False
    have "lbl t < cnt (cls t)" using i1[OF that(1) False] .
    then show ?thesis using that(2) by simp
  qed
  have eq: "x = s" if "x \<in> S" "cls x = cls s" "lbl' x = ?v" for x
  proof (rule ccontr)
    assume ne: "x \<noteq> s"
    have "lbl x = ?v" using l2[OF that(1) ne] that(3) by simp
    then show False using fresh[OF that(1,2)] by simp
  qed
  show ?thesis
  proof (rule linvI)
    fix t assume t: "t \<in> S" "lbl' t \<noteq> NO_LABEL"
    show "lbl' t < cnt' (cls t)"
    proof (cases "t = s")
      case True
      then show ?thesis by (simp add: l1 c1)
    next
      case False
      have "lbl t \<noteq> NO_LABEL" using l2[OF t(1) False] t(2) by simp
      then have "lbl t < cnt (cls t)" using i1[OF t(1)] by simp
      then have "lbl t < cnt' (cls t)" using mono[of "cls t"] by simp
      then show ?thesis using l2[OF t(1) False] by simp
    qed
  next
    fix t u
    assume h: "t \<in> S" "u \<in> S" "lbl' t \<noteq> NO_LABEL" "lbl' t = lbl' u" "cls t = cls u" "t \<noteq> u"
    have ts: "t \<noteq> s"
    proof
      assume ts: "t = s"
      have "lbl' u = ?v" using h(4) l1 ts by simp
      moreover have "cls u = cls s" using ts h(5) by simp
      ultimately have "u = s" using eq[OF h(2)] by simp
      then show False using ts h(6) by simp
    qed
    have us: "u \<noteq> s"
    proof
      assume us: "u = s"
      have "lbl' t = ?v" using h(4) l1 us by simp
      moreover have "cls t = cls s" using us h(5) by simp
      ultimately have "t = s" using eq[OF h(1)] by simp
      then show False using us h(6) by simp
    qed
    have a: "lbl t \<noteq> NO_LABEL" using h(3) l2[OF h(1) ts] by simp
    have b: "lbl t = lbl u" using h(4) l2[OF h(1) ts] l2[OF h(2) us] by simp
    show "el t \<noteq> el u \<and> tup t = tup u"
      using i2[OF h(1,2) a b h(5,6)] .
  next
    fix t u w
    assume h: "t \<in> S" "u \<in> S" "w \<in> S" "lbl' t \<noteq> NO_LABEL" "lbl' t = lbl' u" "lbl' t = lbl' w"
      "cls t = cls u" "cls t = cls w"
    show "t = u \<or> t = w \<or> u = w"
    proof (cases "t = s \<or> u = s \<or> w = s")
      case False
      then have ne: "t \<noteq> s" "u \<noteq> s" "w \<noteq> s" by simp_all
      have a: "lbl t \<noteq> NO_LABEL" using h(4) l2[OF h(1) ne(1)] by simp
      have b: "lbl t = lbl u" using h(5) l2[OF h(1) ne(1)] l2[OF h(2) ne(2)] by simp
      have c: "lbl t = lbl w" using h(6) l2[OF h(1) ne(1)] l2[OF h(3) ne(3)] by simp
      show ?thesis using i3[OF h(1,2,3) a b c h(7,8)] .
    next
      case True
      have tv: "lbl' t = ?v \<and> cls t = cls s"
      proof -
        consider "t = s" | "u = s" | "w = s" using True by blast
        then show ?thesis
        proof cases
          case 1 then show ?thesis by (simp add: l1)
        next
          case 2
          have "lbl' t = lbl' s" "cls t = cls s" using 2 h(5,7) by simp_all
          then show ?thesis by (simp add: l1)
        next
          case 3
          have "lbl' t = lbl' s" "cls t = cls s" using 3 h(6,8) by simp_all
          then show ?thesis by (simp add: l1)
        qed
      qed
      have uv: "lbl' u = ?v" "cls u = cls s"
        using tv h(5) h(7) by simp_all
      have "t = s" using eq[OF h(1)] tv by simp
      moreover have "u = s" using eq[OF h(2) uv(2) uv(1)] .
      ultimately show ?thesis by simp
    qed
  next
    fix c k assume k: "k < cnt' c"
    show "\<exists>t\<in>S. cls t = c \<and> lbl' t = k"
    proof (cases "c = cls s \<and> k = ?v")
      case True
      then show ?thesis using s l1 by blast
    next
      case False
      have kc: "k < cnt c"
      proof (cases "c = cls s")
        case True
        then have "k < ?v + 1" using k c1 by simp
        then show ?thesis using True False by simp
      next
        case c: False
        then show ?thesis using k c2 by simp
      qed
      then obtain t where t: "t \<in> S" "cls t = c" "lbl t = k" using i4 by blast
      have ne: "t \<noteq> s"
      proof
        assume "t = s"
        then have "k = NO_LABEL" "c = cls s" using t un by simp_all
        then show False using kc lt by simp
      qed
      have "lbl' t = k" using l2[OF t(1) ne] t(3) by simp
      then show ?thesis using t by blast
    qed
  qed
qed

lemma linv_label_pair:
  assumes inv: "linv S el cls tup lbl cnt" and s: "s \<in> S" and s': "s' \<in> S"
    and el: "el s \<noteq> el s'" and cl: "cls s = cls s'" and tp: "tup s = tup s'"
    and un: "lbl s = NO_LABEL" and un': "lbl s' = NO_LABEL" and lt: "cnt (cls s) < NO_LABEL"
    and l1: "lbl' s = cnt (cls s)" and l1': "lbl' s' = cnt (cls s)"
    and l2: "\<And>t. t \<in> S \<Longrightarrow> t \<noteq> s \<Longrightarrow> t \<noteq> s' \<Longrightarrow> lbl' t = lbl t"
    and c1: "cnt' (cls s) = cnt (cls s) + 1" and c2: "\<And>c. c \<noteq> cls s \<Longrightarrow> cnt' c = cnt c"
  shows "linv S el cls tup lbl' cnt'"
proof -
  let ?v = "cnt (cls s)"
  note i1 = linvD(1)[OF inv] and i2 = linvD(2)[OF inv] and i3 = linvD(3)[OF inv]
    and i4 = linvD(4)[OF inv]
  have mono: "cnt c \<le> cnt' c" for c
    by (cases "c = cls s") (simp_all add: c1 c2)
  have fresh: "lbl t \<noteq> ?v" if "t \<in> S" "cls t = cls s" for t
  proof (cases "lbl t = NO_LABEL")
    case True
    then show ?thesis using lt by simp
  next
    case False
    have "lbl t < cnt (cls t)" using i1[OF that(1) False] .
    then show ?thesis using that(2) by simp
  qed
  have eq: "x = s \<or> x = s'" if "x \<in> S" "cls x = cls s" "lbl' x = ?v" for x
  proof (rule ccontr)
    assume "\<not> (x = s \<or> x = s')"
    then have ne: "x \<noteq> s" "x \<noteq> s'" by simp_all
    have "lbl x = ?v" using l2[OF that(1) ne] that(3) by simp
    then show False using fresh[OF that(1,2)] by simp
  qed
  have hit: "lbl' x = ?v \<and> cls x = cls s" if "x = s \<or> x = s'" for x
    using that l1 l1' cl by metis
  show ?thesis
  proof (rule linvI)
    fix t assume t: "t \<in> S" "lbl' t \<noteq> NO_LABEL"
    show "lbl' t < cnt' (cls t)"
    proof (cases "t = s \<or> t = s'")
      case True
      have "lbl' t = ?v" "cls t = cls s" using hit[OF True] by blast+
      then show ?thesis by (simp add: c1)
    next
      case False
      then have ne: "t \<noteq> s" "t \<noteq> s'" by simp_all
      have "lbl t \<noteq> NO_LABEL" using l2[OF t(1) ne] t(2) by simp
      then have "lbl t < cnt (cls t)" using i1[OF t(1)] by simp
      then have "lbl t < cnt' (cls t)" using mono[of "cls t"] by simp
      then show ?thesis using l2[OF t(1) ne] by simp
    qed
  next
    fix t u
    assume h: "t \<in> S" "u \<in> S" "lbl' t \<noteq> NO_LABEL" "lbl' t = lbl' u" "cls t = cls u" "t \<noteq> u"
    show "el t \<noteq> el u \<and> tup t = tup u"
    proof (cases "t = s \<or> t = s' \<or> u = s \<or> u = s'")
      case True
      have "lbl' t = ?v \<and> cls t = cls s"
      proof (cases "t = s \<or> t = s'")
        case True
        then show ?thesis by (rule hit)
      next
        case False
        then have "u = s \<or> u = s'" using True by simp
        then have "lbl' u = ?v \<and> cls u = cls s" by (rule hit)
        then show ?thesis using h(4,5) by metis
      qed
      then have tv: "lbl' t = ?v" "cls t = cls s" by simp_all
      have uv: "lbl' u = ?v" "cls u = cls s" using tv h(4,5) by metis+
      have "t = s \<or> t = s'" using eq[OF h(1) tv(2) tv(1)] .
      moreover have "u = s \<or> u = s'" using eq[OF h(2) uv(2) uv(1)] .
      ultimately have "(t = s \<and> u = s') \<or> (t = s' \<and> u = s)" using h(6) by metis
      then show ?thesis using el tp by metis
    next
      case False
      then have ne: "t \<noteq> s" "t \<noteq> s'" "u \<noteq> s" "u \<noteq> s'" by simp_all
      have a: "lbl t \<noteq> NO_LABEL" using h(3) l2[OF h(1) ne(1,2)] by simp
      have b: "lbl t = lbl u" using h(4) l2[OF h(1) ne(1,2)] l2[OF h(2) ne(3,4)] by simp
      show ?thesis using i2[OF h(1,2) a b h(5,6)] .
    qed
  next
    fix t u w
    assume h: "t \<in> S" "u \<in> S" "w \<in> S" "lbl' t \<noteq> NO_LABEL" "lbl' t = lbl' u" "lbl' t = lbl' w"
      "cls t = cls u" "cls t = cls w"
    show "t = u \<or> t = w \<or> u = w"
    proof (cases "(t = s \<or> t = s') \<or> (u = s \<or> u = s') \<or> (w = s \<or> w = s')")
      case False
      then have ne: "t \<noteq> s" "t \<noteq> s'" "u \<noteq> s" "u \<noteq> s'" "w \<noteq> s" "w \<noteq> s'" by simp_all
      have a: "lbl t \<noteq> NO_LABEL" using h(4) l2[OF h(1) ne(1,2)] by simp
      have b: "lbl t = lbl u" using h(5) l2[OF h(1) ne(1,2)] l2[OF h(2) ne(3,4)] by simp
      have c: "lbl t = lbl w" using h(6) l2[OF h(1) ne(1,2)] l2[OF h(3) ne(5,6)] by simp
      show ?thesis using i3[OF h(1,2,3) a b c h(7,8)] .
    next
      case True
      have "lbl' t = ?v \<and> cls t = cls s"
      proof -
        consider "t = s \<or> t = s'" | "u = s \<or> u = s'" | "w = s \<or> w = s'" using True by blast
        then show ?thesis
        proof cases
          case 1 then show ?thesis by (rule hit)
        next
          case 2
          then have "lbl' u = ?v \<and> cls u = cls s" by (rule hit)
          then show ?thesis using h(5,7) by metis
        next
          case 3
          then have "lbl' w = ?v \<and> cls w = cls s" by (rule hit)
          then show ?thesis using h(6,8) by metis
        qed
      qed
      then have tv: "lbl' t = ?v" "cls t = cls s" by simp_all
      have uv: "lbl' u = ?v" "cls u = cls s" using tv h(5,7) by metis+
      have wv: "lbl' w = ?v" "cls w = cls s" using tv h(6,8) by metis+
      have "t = s \<or> t = s'" using eq[OF h(1) tv(2) tv(1)] .
      moreover have "u = s \<or> u = s'" using eq[OF h(2) uv(2) uv(1)] .
      moreover have "w = s \<or> w = s'" using eq[OF h(3) wv(2) wv(1)] .
      ultimately show ?thesis by metis
    qed
  next
    fix c k assume k: "k < cnt' c"
    show "\<exists>t\<in>S. cls t = c \<and> lbl' t = k"
    proof (cases "c = cls s \<and> k = ?v")
      case True
      then show ?thesis using s l1 by blast
    next
      case False
      have kc: "k < cnt c"
      proof (cases "c = cls s")
        case True
        then have "k < ?v + 1" using k c1 by simp
        then show ?thesis using True False by simp
      next
        case c: False
        then show ?thesis using k c2 by simp
      qed
      then obtain t where t: "t \<in> S" "cls t = c" "lbl t = k" using i4 by blast
      have ne: "t \<noteq> s \<and> t \<noteq> s'"
      proof (rule ccontr)
        assume "\<not> (t \<noteq> s \<and> t \<noteq> s')"
        then have "t = s \<or> t = s'" by simp
        then have "cls t = cls s" "lbl t = NO_LABEL" using cl un un' by metis+
        then have "k = NO_LABEL" "c = cls s" using t(2,3) by metis+
        then show False using kc lt by simp
      qed
      have "lbl' t = k" using l2[OF t(1)] ne t(3) by simp
      then show ?thesis using t by blast
    qed
  qed
qed

section \<open>Face numbering: the invariant on the mesh\<close>

text \<open>
  The slots of a mesh are the pairs of an element and one of its local face indices.
  \<open>label_new\<close> is the assignment the first sweep of \<open>init_face_data\<close> makes for a face
  without a match, \<open>label_pair\<close> the one it makes for a matched pair of faces.
\<close>

datatype arity = Tri | Quad

definition face_cls :: "ElementTypes \<Rightarrow> MeshConnectivity3D \<Rightarrow> nat \<times> nat \<Rightarrow> arity" where
  "face_cls E m s =
     (if snd (get_element_global_face_verts E m (fst s) (snd s)) = 3 then Tri else Quad)"

definition face_tup :: "ElementTypes \<Rightarrow> MeshConnectivity3D \<Rightarrow> nat \<times> nat \<Rightarrow> nat list \<times> nat" where
  "face_tup E m s = get_element_global_face_verts E m (fst s) (snd s)"

definition face_cnt :: "MeshConnectivity3D \<Rightarrow> arity \<Rightarrow> nat" where
  "face_cnt m c = (case c of Tri \<Rightarrow> ntri_faces m | Quad \<Rightarrow> nquad_faces m)"

definition fslots :: "ElementTypes \<Rightarrow> MeshConnectivity3D \<Rightarrow> (nat \<times> nat) set" where
  "fslots E m = {s. fslot E m (fst s) (snd s)}"

definition slot_lbl :: "ElementTypes \<Rightarrow> MeshConnectivity3D \<Rightarrow> nat \<times> nat \<Rightarrow> nat" where
  "slot_lbl E m s = face_lbl E m (fst s) (snd s)"

definition faces_inv :: "ElementTypes \<Rightarrow> MeshConnectivity3D \<Rightarrow> bool" where
  "faces_inv E m =
     (faces_wf E m \<and>
      linv (fslots E m) fst (face_cls E m) (face_tup E m) (slot_lbl E m) (face_cnt m))"

definition bump :: "arity \<Rightarrow> MeshConnectivity3D \<Rightarrow> MeshConnectivity3D" where
  "bump c m = (case c of Tri \<Rightarrow> m\<lparr>ntri_faces := ntri_faces m + 1\<rparr>
               | Quad \<Rightarrow> m\<lparr>nquad_faces := nquad_faces m + 1\<rparr>)"

definition label_new ::
  "ElementTypes \<Rightarrow> nat \<Rightarrow> nat \<Rightarrow> MeshConnectivity3D \<Rightarrow> MeshConnectivity3D" where
  "label_new E e f m =
     bump (face_cls E m (e, f)) (face_put E e f (face_cnt m (face_cls E m (e, f))) m)"

definition label_pair ::
  "ElementTypes \<Rightarrow> nat \<Rightarrow> nat \<Rightarrow> nat \<Rightarrow> nat \<Rightarrow> MeshConnectivity3D \<Rightarrow> MeshConnectivity3D" where
  "label_pair E e f e' f' m =
     bump (face_cls E m (e, f))
       (face_put E e f (face_cnt m (face_cls E m (e, f)))
         (face_put E e' f' (face_cnt m (face_cls E m (e, f))) m))"

lemma bump_frame:
  "topo (bump c m) = topo m"
  "faces_arr (bump c m) = faces_arr m"
  "nfaces (bump c m) = nfaces m"
  "tri_face_elements (bump c m) = tri_face_elements m"
  "quad_face_elements (bump c m) = quad_face_elements m"
  by (simp_all add: bump_def topo_def faces_arr_def fun_eq_iff split: arity.splits shape.splits)

lemma face_cnt_bump:
  "face_cnt (bump c m) c' = (if c' = c then face_cnt m c + 1 else face_cnt m c')"
  by (simp add: bump_def face_cnt_def split: arity.splits)

lemma face_cnt_put: "face_cnt (face_put E e f v m) = face_cnt m"
  by (intro ext) (simp add: face_cnt_def face_put_frame split: arity.splits)

lemma topo_slots:
  assumes "topo m = topo m'"
  shows "fslots E m = fslots E m'" "face_cls E m = face_cls E m'" "face_tup E m = face_tup E m'"
proof -
  note a = topo_accessors[OF assms] and b = fslot_topo[OF assms]
  show "fslots E m = fslots E m'" by (simp add: fslots_def b)
  show "face_cls E m = face_cls E m'" by (intro ext) (simp add: face_cls_def a(5))
  show "face_tup E m = face_tup E m'" by (intro ext) (simp add: face_tup_def a(5))
qed

lemma face_lbl_arr:
  assumes "topo m = topo m'" and "faces_arr m = faces_arr m'"
  shows "face_lbl E m = face_lbl E m'"
proof (intro ext)
  fix e f
  have g: "get_element_faces E m = get_element_faces E m'"
    using assms(1) by (rule topo_accessors)
  have "faces_at m p f = faces_at m' p f" for p
  proof (cases p)
    case NULL
    then show ?thesis
      using assms(2) by (simp add: faces_at_def faces_arr_def fun_eq_iff)
  next
    case (Ptr sh off)
    then show ?thesis
      using assms(2) by (simp add: faces_at_arr)
  qed
  then show "face_lbl E m e f = face_lbl E m' e f"
    by (simp add: face_lbl_def g)
qed

lemma faces_wf_arr:
  assumes "topo m = topo m'" and "faces_arr m = faces_arr m'"
  shows "faces_wf E m = faces_wf E m'"
  by (simp add: faces_wf_def assms(2) shape_count_topo[OF assms(1)])

lemma face_lbl_put_same:
  "faces_wf E m \<Longrightarrow> fslot E m e f \<Longrightarrow> face_lbl E (face_put E e f v m) e f = v"
  using face_lbl_put[of E m e f e f v] by simp

lemma face_lbl_put_other:
  "faces_wf E m \<Longrightarrow> fslot E m e f \<Longrightarrow> fslot E m e' f' \<Longrightarrow> (e', f') \<noteq> (e, f) \<Longrightarrow>
     face_lbl E (face_put E e f v m) e' f' = face_lbl E m e' f'"
  using face_lbl_put[of E m e f e' f' v] by auto

lemma label_new_topo: "topo (label_new E e f m) = topo m"
  by (simp add: label_new_def bump_frame face_put_frame)

lemma label_pair_topo: "topo (label_pair E e f e' f' m) = topo m"
  by (simp add: label_pair_def bump_frame face_put_frame)

lemma label_new_inv:
  assumes inv: "faces_inv E m" and s: "fslot E m e f" and un: "face_lbl E m e f = NO_LABEL"
    and lt: "face_cnt m (face_cls E m (e, f)) < NO_LABEL"
  shows "faces_inv E (label_new E e f m)"
proof -
  let ?c = "face_cls E m (e, f)"
  let ?v = "face_cnt m ?c"
  let ?m1 = "face_put E e f ?v m"
  let ?m2 = "label_new E e f m"
  have wf: "faces_wf E m" and li: "linv (fslots E m) fst (face_cls E m) (face_tup E m)
      (slot_lbl E m) (face_cnt m)"
    using inv by (simp_all add: faces_inv_def)
  have t1: "topo ?m1 = topo m" by (rule face_put_frame)
  have t2: "topo ?m2 = topo ?m1" by (simp add: label_new_def bump_frame)
  have a2: "faces_arr ?m2 = faces_arr ?m1" by (simp add: label_new_def bump_frame)
  have lbl2: "face_lbl E ?m2 = face_lbl E ?m1"
    using t2 a2 by (rule face_lbl_arr)
  have wf2: "faces_wf E ?m2"
    using faces_wf_arr[OF t2 a2] face_put_wf[OF wf] by simp
  have l1: "slot_lbl E ?m2 (e, f) = ?v"
    using face_lbl_put_same[OF wf s] by (simp add: slot_lbl_def lbl2)
  have l2: "slot_lbl E ?m2 t = slot_lbl E m t" if "t \<in> fslots E m" "t \<noteq> (e, f)" for t
  proof -
    obtain a b where t: "t = (a, b)" by (cases t)
    have ab: "fslot E m a b" using that(1) t by (simp add: fslots_def)
    have "(a, b) \<noteq> (e, f)" using that(2) t by simp
    from face_lbl_put_other[OF wf s ab this]
    show ?thesis
      using t by (simp add: slot_lbl_def lbl2)
  qed
  have c1: "face_cnt ?m2 ?c = ?v + 1"
    by (simp add: label_new_def face_cnt_bump face_cnt_put)
  have c2: "face_cnt ?m2 c = face_cnt m c" if "c \<noteq> ?c" for c
    using that by (simp add: label_new_def face_cnt_bump face_cnt_put)
  have "linv (fslots E m) fst (face_cls E m) (face_tup E m) (slot_lbl E ?m2) (face_cnt ?m2)"
  proof (rule linv_label_new[OF li, where s = "(e, f)"])
    show "(e, f) \<in> fslots E m" using s by (simp add: fslots_def)
    show "slot_lbl E m (e, f) = NO_LABEL" using un by (simp add: slot_lbl_def)
    show "face_cnt m ?c < NO_LABEL" by (rule lt)
    show "slot_lbl E ?m2 (e, f) = ?v" by (rule l1)
    show "\<And>t. t \<in> fslots E m \<Longrightarrow> t \<noteq> (e, f) \<Longrightarrow> slot_lbl E ?m2 t = slot_lbl E m t"
      by (rule l2)
    show "face_cnt ?m2 ?c = ?v + 1" by (rule c1)
    show "\<And>c. c \<noteq> ?c \<Longrightarrow> face_cnt ?m2 c = face_cnt m c" by (rule c2)
  qed
  then have "linv (fslots E ?m2) fst (face_cls E ?m2) (face_tup E ?m2) (slot_lbl E ?m2)
      (face_cnt ?m2)"
    unfolding topo_slots[OF label_new_topo] .
  then show ?thesis
    using wf2 by (simp add: faces_inv_def)
qed

lemma label_pair_inv:
  assumes inv: "faces_inv E m" and s: "fslot E m e f" and s': "fslot E m e' f'"
    and ne: "e \<noteq> e'" and tp: "face_tup E m (e, f) = face_tup E m (e', f')"
    and un: "face_lbl E m e f = NO_LABEL" and un': "face_lbl E m e' f' = NO_LABEL"
    and lt: "face_cnt m (face_cls E m (e, f)) < NO_LABEL"
  shows "faces_inv E (label_pair E e f e' f' m)"
proof -
  let ?c = "face_cls E m (e, f)"
  let ?v = "face_cnt m ?c"
  let ?m0 = "face_put E e' f' ?v m"
  let ?m1 = "face_put E e f ?v ?m0"
  let ?m2 = "label_pair E e f e' f' m"
  have wf: "faces_wf E m" and li: "linv (fslots E m) fst (face_cls E m) (face_tup E m)
      (slot_lbl E m) (face_cnt m)"
    using inv by (simp_all add: faces_inv_def)
  have cl: "face_cls E m (e, f) = face_cls E m (e', f')"
    using tp by (simp add: face_cls_def face_tup_def)
  have t0: "topo ?m0 = topo m" by (rule face_put_frame)
  have t1: "topo ?m1 = topo ?m0" by (rule face_put_frame)
  have t2: "topo ?m2 = topo ?m1" by (simp add: label_pair_def bump_frame)
  have a2: "faces_arr ?m2 = faces_arr ?m1" by (simp add: label_pair_def bump_frame)
  have lbl2: "face_lbl E ?m2 = face_lbl E ?m1"
    using t2 a2 by (rule face_lbl_arr)
  have wf0: "faces_wf E ?m0" by (rule face_put_wf[OF wf])
  have wf2: "faces_wf E ?m2"
    using faces_wf_arr[OF t2 a2] face_put_wf[OF wf0] by simp
  have s0: "fslot E ?m0 e f" and s0': "fslot E ?m0 e' f'"
    using s s' by (simp_all add: fslot_topo[OF t0])
  have put: "slot_lbl E ?m2 t =
      (if t = (e, f) then ?v else if t = (e', f') then ?v else slot_lbl E m t)"
    if "t \<in> fslots E m" for t
  proof -
    obtain a b where t: "t = (a, b)" by (cases t)
    have ts: "fslot E m a b" using that t by (simp add: fslots_def)
    then have ts0: "fslot E ?m0 a b" by (simp add: fslot_topo[OF t0])
    show ?thesis
    proof (cases "(a, b) = (e, f)")
      case True
      then show ?thesis
        using face_lbl_put_same[OF wf0 s0] t by (simp add: slot_lbl_def lbl2)
    next
      case nef: False
      have 1: "face_lbl E ?m1 a b = face_lbl E ?m0 a b"
        by (rule face_lbl_put_other[OF wf0 s0 ts0 nef])
      show ?thesis
      proof (cases "(a, b) = (e', f')")
        case True
        then have "face_lbl E ?m0 a b = ?v"
          using face_lbl_put_same[OF wf s'] by simp
        then show ?thesis
          using 1 nef True t by (auto simp: slot_lbl_def lbl2)
      next
        case False
        have "face_lbl E ?m0 a b = face_lbl E m a b"
          by (rule face_lbl_put_other[OF wf s' ts False])
        then show ?thesis
          using 1 nef False t by (auto simp: slot_lbl_def lbl2)
      qed
    qed
  qed
  have c1: "face_cnt ?m2 ?c = ?v + 1"
    by (simp add: label_pair_def face_cnt_bump face_cnt_put)
  have c2: "face_cnt ?m2 c = face_cnt m c" if "c \<noteq> ?c" for c
    using that by (simp add: label_pair_def face_cnt_bump face_cnt_put)
  have "linv (fslots E m) fst (face_cls E m) (face_tup E m) (slot_lbl E ?m2) (face_cnt ?m2)"
  proof (rule linv_label_pair[OF li, where s = "(e, f)" and s' = "(e', f')"])
    show "(e, f) \<in> fslots E m" using s by (simp add: fslots_def)
    show in': "(e', f') \<in> fslots E m" using s' by (simp add: fslots_def)
    show "fst (e, f) \<noteq> fst (e', f')" using ne by simp
    show "face_cls E m (e, f) = face_cls E m (e', f')" by (rule cl)
    show "face_tup E m (e, f) = face_tup E m (e', f')" by (rule tp)
    show "slot_lbl E m (e, f) = NO_LABEL" using un by (simp add: slot_lbl_def)
    show "slot_lbl E m (e', f') = NO_LABEL" using un' by (simp add: slot_lbl_def)
    show "face_cnt m ?c < NO_LABEL" by (rule lt)
    show "slot_lbl E ?m2 (e, f) = ?v" using put[of "(e, f)"] s by (simp add: fslots_def)
    show "slot_lbl E ?m2 (e', f') = ?v" using put[OF in'] by simp
    show "\<And>t. t \<in> fslots E m \<Longrightarrow> t \<noteq> (e, f) \<Longrightarrow> t \<noteq> (e', f') \<Longrightarrow>
        slot_lbl E ?m2 t = slot_lbl E m t"
      using put by simp
    show "face_cnt ?m2 ?c = ?v + 1" by (rule c1)
    show "\<And>c. c \<noteq> ?c \<Longrightarrow> face_cnt ?m2 c = face_cnt m c" by (rule c2)
  qed
  then have "linv (fslots E ?m2) fst (face_cls E ?m2) (face_tup E ?m2) (slot_lbl E ?m2)
      (face_cnt ?m2)"
    unfolding topo_slots[OF label_pair_topo] .
  then show ?thesis
    using wf2 by (simp add: faces_inv_def)
qed

lemma label_new_lbl:
  assumes wf: "faces_wf E m" and s: "fslot E m e f" and t: "fslot E m a b"
  shows "face_lbl E (label_new E e f m) a b =
           (if (a, b) = (e, f) then face_cnt m (face_cls E m (e, f)) else face_lbl E m a b)"
proof -
  let ?v = "face_cnt m (face_cls E m (e, f))"
  let ?m1 = "face_put E e f ?v m"
  have t2: "topo (label_new E e f m) = topo ?m1" by (simp add: label_new_def bump_frame)
  have a2: "faces_arr (label_new E e f m) = faces_arr ?m1" by (simp add: label_new_def bump_frame)
  have lbl2: "face_lbl E (label_new E e f m) = face_lbl E ?m1"
    using t2 a2 by (rule face_lbl_arr)
  show ?thesis
  proof (cases "(a, b) = (e, f)")
    case True
    then show ?thesis using face_lbl_put_same[OF wf s] by (simp add: lbl2)
  next
    case False
    then show ?thesis using face_lbl_put_other[OF wf s t False] by (auto simp: lbl2)
  qed
qed

lemma label_pair_lbl:
  assumes wf: "faces_wf E m" and s: "fslot E m e f" and s': "fslot E m e' f'"
    and t: "fslot E m a b"
  shows "face_lbl E (label_pair E e f e' f' m) a b =
           (if (a, b) = (e, f) \<or> (a, b) = (e', f') then face_cnt m (face_cls E m (e, f))
            else face_lbl E m a b)"
proof -
  let ?v = "face_cnt m (face_cls E m (e, f))"
  let ?m0 = "face_put E e' f' ?v m"
  let ?m1 = "face_put E e f ?v ?m0"
  let ?m2 = "label_pair E e f e' f' m"
  have t0: "topo ?m0 = topo m" by (rule face_put_frame)
  have t2: "topo ?m2 = topo ?m1" by (simp add: label_pair_def bump_frame)
  have a2: "faces_arr ?m2 = faces_arr ?m1" by (simp add: label_pair_def bump_frame)
  have lbl2: "face_lbl E ?m2 = face_lbl E ?m1"
    using t2 a2 by (rule face_lbl_arr)
  have wf0: "faces_wf E ?m0" by (rule face_put_wf[OF wf])
  have s0: "fslot E ?m0 e f" and ts0: "fslot E ?m0 a b"
    using s t by (simp_all add: fslot_topo[OF t0])
  show ?thesis
  proof (cases "(a, b) = (e, f)")
    case True
    then show ?thesis
      using face_lbl_put_same[OF wf0 s0] by (simp add: lbl2)
  next
    case nef: False
    have 1: "face_lbl E ?m1 a b = face_lbl E ?m0 a b"
      by (rule face_lbl_put_other[OF wf0 s0 ts0 nef])
    show ?thesis
    proof (cases "(a, b) = (e', f')")
      case True
      then have "face_lbl E ?m0 a b = ?v"
        using face_lbl_put_same[OF wf s'] by simp
      then show ?thesis
        using 1 nef True by (auto simp: lbl2)
    next
      case False
      have "face_lbl E ?m0 a b = face_lbl E m a b"
        by (rule face_lbl_put_other[OF wf s' t False])
      then show ?thesis
        using 1 nef False by (auto simp: lbl2)
    qed
  qed
qed

definition max_faces :: "ElementTypes \<Rightarrow> nat" where
  "max_faces E = max (max (TET_FACES E) (HEX_FACES E)) (max (WEDGE_FACES E) (PYRMD_FACES E))"

lemma faces_per_le: "faces_per E sh \<le> max_faces E"
  by (cases sh) (simp_all add: faces_per_def max_faces_def)

lemma fslots_bound:
  "finite (fslots E m)"
  "card (fslots E m) \<le> (ntets m + nhex m + nwedge m + npyrmd m) * max_faces E"
proof -
  let ?N = "ntets m + nhex m + nwedge m + npyrmd m"
  have sub: "fslots E m \<subseteq> {0..<?N} \<times> {0..<max_faces E}"
  proof
    fix s assume "s \<in> fslots E m"
    then have a: "fslot E m (fst s) (snd s)" by (simp add: fslots_def)
    then obtain sh l where "elem_kind m (fst s) = Some (sh, l)" "snd s < faces_per E sh"
      by (auto simp: fslot_kind)
    then have "fst s < ?N" "snd s < max_faces E"
      using faces_per_le[of E sh] by (auto dest: elem_kind_lt)
    then show "s \<in> {0..<?N} \<times> {0..<max_faces E}"
      by (cases s) simp
  qed
  show "finite (fslots E m)"
    using sub by (rule finite_subset) simp
  have "card (fslots E m) \<le> card ({0..<?N} \<times> {0..<max_faces E})"
    using sub by (intro card_mono) simp_all
  then show "card (fslots E m) \<le> ?N * max_faces E"
    by simp
qed

lemma linv_count_le:
  assumes inv: "linv S el cls tup lbl cnt" and fin: "finite S"
  shows "cnt c \<le> card S"
proof -
  have "{0..<cnt c} \<subseteq> lbl ` S"
  proof
    fix k assume "k \<in> {0..<cnt c}"
    then have "k < cnt c" by simp
    then obtain t where "t \<in> S" "lbl t = k"
      using linvD(4)[OF inv] by blast
    then show "k \<in> lbl ` S" by blast
  qed
  then have "card {0..<cnt c} \<le> card (lbl ` S)"
    using fin by (intro card_mono) simp_all
  also have "\<dots> \<le> card S"
    using fin by (rule card_image_le)
  finally show ?thesis by simp
qed

lemma face_cnt_bound:
  assumes "faces_inv E m"
    and "(ntets m + nhex m + nwedge m + npyrmd m) * max_faces E < NO_LABEL"
  shows "face_cnt m c < NO_LABEL"
proof -
  have li: "linv (fslots E m) fst (face_cls E m) (face_tup E m) (slot_lbl E m) (face_cnt m)"
    using assms(1) by (simp add: faces_inv_def)
  have "face_cnt m c \<le> card (fslots E m)"
    using li fslots_bound(1) by (rule linv_count_le)
  then show ?thesis
    using fslots_bound(2)[of E m] assms(2) by linarith
qed

lemma global_face_order_shape:
  "length (fst (global_face_order t n)) = snd (global_face_order t n)"
  "snd (global_face_order t n) = 3 \<or> snd (global_face_order t n) = 4"
  by (simp_all add: global_face_order_def)

lemma face_tup_shape:
  "length (fst (face_tup E m s)) = snd (face_tup E m s)"
  "snd (face_tup E m s) = 3 \<or> snd (face_tup E m s) = 4"
  by (simp_all add: face_tup_def get_element_global_face_verts_def global_face_order_shape
      split: prod.splits)

lemma list3_eq:
  assumes "length a = 3" "length b = 3" "a ! 0 = b ! 0" "a ! 1 = b ! 1" "a ! 2 = b ! 2"
  shows "a = (b::nat list)"
proof (rule nth_equalityI)
  show "length a = length b" using assms by simp
  fix i assume "i < length a"
  then have "i = 0 \<or> i = 1 \<or> i = 2" using assms(1) by auto
  then show "a ! i = b ! i" using assms by auto
qed

lemma list4_eq:
  assumes "length a = 4" "length b = 4" "a ! 0 = b ! 0" "a ! 1 = b ! 1" "a ! 2 = b ! 2"
    "a ! 3 = b ! 3"
  shows "a = (b::nat list)"
proof (rule nth_equalityI)
  show "length a = length b" using assms by simp
  fix i assume "i < length a"
  then have "i = 0 \<or> i = 1 \<or> i = 2 \<or> i = 3" using assms(1) by auto
  then show "a ! i = b ! i" using assms by auto
qed

lemma global_face_equality_tup:
  assumes "global_face_equality (snd (face_tup E m s)) (fst (face_tup E m s))
             (snd (face_tup E m t)) (fst (face_tup E m t))"
  shows "face_tup E m s = face_tup E m t"
proof -
  have n: "snd (face_tup E m s) = snd (face_tup E m t)"
    using assms by (simp add: global_face_equality_def split: if_splits)
  have "fst (face_tup E m s) = fst (face_tup E m t)"
  proof (cases "snd (face_tup E m s) = 3")
    case True
    then show ?thesis
      using assms n face_tup_shape(1)[of E m s] face_tup_shape(1)[of E m t]
      by (intro list3_eq) (simp_all add: global_face_equality_def)
  next
    case False
    then have 4: "snd (face_tup E m s) = 4" using face_tup_shape(2)[of E m s] by simp
    then show ?thesis
      using assms n face_tup_shape(1)[of E m s] face_tup_shape(1)[of E m t]
      by (intro list4_eq) (simp_all add: global_face_equality_def)
  qed
  then show ?thesis using n by (simp add: prod_eq_iff)
qed

section \<open>Face numbering: the first sweep\<close>

lemma label_new_unfold:
  "label_new E e f m =
     (if snd (get_element_global_face_verts E m e f) = 3 then
        (faces_set (fst (get_element_faces E m e)) f (ntri_faces m) m)
          \<lparr>ntri_faces := ntri_faces m + 1\<rparr>
      else
        (faces_set (fst (get_element_faces E m e)) f (nquad_faces m) m)
          \<lparr>nquad_faces := nquad_faces m + 1\<rparr>)"
  by (simp add: label_new_def bump_def face_cls_def face_cnt_def face_put_def faces_set_frame)

lemma label_pair_unfold:
  "label_pair E e f e' f' m =
     (if snd (get_element_global_face_verts E m e f) = 3 then
        (faces_set (fst (get_element_faces E m e)) f (ntri_faces m)
           (faces_set (fst (get_element_faces E m e')) f' (ntri_faces m) m))
          \<lparr>ntri_faces := ntri_faces m + 1\<rparr>
      else
        (faces_set (fst (get_element_faces E m e)) f (nquad_faces m)
           (faces_set (fst (get_element_faces E m e')) f' (nquad_faces m) m))
          \<lparr>nquad_faces := nquad_faces m + 1\<rparr>)"
proof -
  have g: "get_element_faces E (faces_set p i v m) = get_element_faces E m" for p i v
    by (rule topo_accessors) (rule faces_set_frame)
  show ?thesis
    by (simp add: label_pair_def bump_def face_cls_def face_cnt_def face_put_def
        faces_set_frame g)
qed

definition search_ok ::
  "ElementTypes \<Rightarrow> MeshConnectivity3D \<Rightarrow> nat \<Rightarrow> nat \<Rightarrow> MeshConnectivity3D \<times> bool \<Rightarrow> bool" where
  "search_ok E m e f st =
     (if snd st then
        (\<exists>e' f'. e' \<noteq> e \<and> fslot E m e' f' \<and> face_lbl E m e' f' = NO_LABEL \<and>
           face_tup E m (e, f) = face_tup E m (e', f') \<and>
           fst st = label_pair E e f e' f' m)
      else fst st = m)"

lemma search_ok_topo: "search_ok E m e f st \<Longrightarrow> topo (fst st) = topo m"
  by (auto simp: search_ok_def label_pair_topo split: if_splits)

lemma match_adj_faces_ok:
  assumes ok: "search_ok E m e f st" and ne: "adj_elem \<noteq> e"
    and faces: "faces = fst (get_element_faces E m e)"
    and fv: "(face_verts, nface_verts) = get_element_global_face_verts E m e f"
  shows "search_ok E m e f (match_adj_faces E faces f face_verts nface_verts adj_elem st)"
proof -
  obtain adj_faces adj_nf where g: "get_element_faces E m adj_elem = (adj_faces, adj_nf)"
    by (cases "get_element_faces E m adj_elem")
  have g': "get_element_faces E (fst st) adj_elem = (adj_faces, adj_nf)"
    using topo_accessors(1)[OF search_ok_topo[OF ok], of E] g by simp
  let ?body = "\<lambda>adj_face (m, face_located).
                if face_located then (m, face_located)
                else
                  (case get_element_global_face_verts E m adj_elem adj_face of
                     (adj_face_verts, adj_nface_verts) \<Rightarrow>
                       if faces_at m adj_faces adj_face = NO_LABEL \<and>
                          global_face_equality nface_verts face_verts
                            adj_nface_verts adj_face_verts
                       then
                         (if nface_verts = 3 then
                            ((faces_set faces f (ntri_faces m)
                               (faces_set adj_faces adj_face (ntri_faces m) m))
                               \<lparr>ntri_faces := ntri_faces m + 1\<rparr>, True)
                          else
                            ((faces_set faces f (nquad_faces m)
                               (faces_set adj_faces adj_face (nquad_faces m) m))
                               \<lparr>nquad_faces := nquad_faces m + 1\<rparr>, True))
                       else (m, face_located))"
  have "search_ok E m e f (fold ?body [0..<adj_nf] st)"
  proof (rule fold_invariant[where P = "search_ok E m e f" and f = ?body
        and xs = "[0..<adj_nf]" and s = st])
    show "search_ok E m e f st" by (rule ok)
  next
    fix adj_face s
    assume x: "adj_face \<in> set [0..<adj_nf]" and P: "search_ok E m e f s"
    obtain m' located where s: "s = (m', located)" by (cases s)
    show "search_ok E m e f (?body adj_face s)"
    proof (cases located)
      case True
      then show ?thesis using P s by simp
    next
      case False
      then have m': "m' = m" using P s by (simp add: search_ok_def)
      have slot: "fslot E m adj_elem adj_face"
        using x g by (simp add: fslot_def)
      have lbl: "faces_at m adj_faces adj_face = face_lbl E m adj_elem adj_face"
        using g by (simp add: face_lbl_def)
      have tup_e: "face_tup E m (e, f) = (face_verts, nface_verts)"
        using fv by (simp add: face_tup_def)
      obtain av an where ga: "get_element_global_face_verts E m adj_elem adj_face = (av, an)"
        by (cases "get_element_global_face_verts E m adj_elem adj_face")
      show ?thesis
      proof (cases "faces_at m adj_faces adj_face = NO_LABEL \<and>
          global_face_equality nface_verts face_verts an av")
        case c: False
        have "?body adj_face s = s"
          using c s False m' by (auto simp: ga)
        then show ?thesis using P by simp
      next
        case c: True
        have "global_face_equality (snd (face_tup E m (e, f))) (fst (face_tup E m (e, f)))
            (snd (face_tup E m (adj_elem, adj_face))) (fst (face_tup E m (adj_elem, adj_face)))"
          using c tup_e by (simp add: face_tup_def ga)
        then have teq: "face_tup E m (e, f) = face_tup E m (adj_elem, adj_face)"
          by (rule global_face_equality_tup)
        have n: "snd (get_element_global_face_verts E m e f) = nface_verts"
          using fv by (metis snd_conv)
        have r: "?body adj_face s = (label_pair E e f adj_elem adj_face m, True)"
          using c s False m' g
          by (simp add: label_pair_unfold n faces ga)
        have "search_ok E m e f (label_pair E e f adj_elem adj_face m, True)"
          unfolding search_ok_def
          using ne slot c lbl teq by auto
        then show ?thesis using r by simp
      qed
    qed
  qed
  then show ?thesis
    unfolding match_adj_faces_def g' by simp
qed

lemma match_adj_elems_ok:
  assumes ok: "search_ok E m e f st"
    and faces: "faces = fst (get_element_faces E m e)"
    and fv: "(face_verts, nface_verts) = get_element_global_face_verts E m e f"
  shows "search_ok E m e f (match_adj_elems E e faces f face_verts nface_verts mv st)"
proof (cases "snd st")
  case True
  then show ?thesis using ok by (simp add: match_adj_elems_def)
next
  case False
  obtain adj_elems nadj_elems where
    ga: "get_adjacent_elements_from_vert (fst st) (face_verts ! mv) = (adj_elems, nadj_elems)"
    by (cases "get_adjacent_elements_from_vert (fst st) (face_verts ! mv)")
  let ?body = "\<lambda>k (m, face_located).
                     if face_located then (m, face_located)
                     else if vert_elements m ! (adj_elems + k) \<noteq> e then
                       match_adj_faces E faces f face_verts nface_verts
                         (vert_elements m ! (adj_elems + k)) (m, face_located)
                     else (m, face_located)"
  have "search_ok E m e f (fold ?body [0..<nadj_elems] st)"
  proof (rule fold_invariant[where P = "search_ok E m e f" and f = ?body
        and xs = "[0..<nadj_elems]" and s = st])
    show "search_ok E m e f st" by (rule ok)
  next
    fix k s
    assume P: "search_ok E m e f s"
    obtain m' located where s: "s = (m', located)" by (cases s)
    show "search_ok E m e f (?body k s)"
    proof (cases "located \<or> vert_elements m' ! (adj_elems + k) = e")
      case True
      then have "?body k s = s" using s by auto
      then show ?thesis using P by simp
    next
      case False
      then have "?body k s = match_adj_faces E faces f face_verts nface_verts
          (vert_elements m' ! (adj_elems + k)) s"
        using s by auto
      then show ?thesis
        using match_adj_faces_ok[OF P _ faces fv] False by simp
    qed
  qed
  then show ?thesis
    using False by (simp add: match_adj_elems_def ga)
qed

lemma locate_face_cases:
  assumes faces: "faces = fst (get_element_faces E m e)"
  shows "(face_lbl E m e f \<noteq> NO_LABEL \<and> locate_face E e faces f m = m) \<or>
         (face_lbl E m e f = NO_LABEL \<and> locate_face E e faces f m = label_new E e f m) \<or>
         (face_lbl E m e f = NO_LABEL \<and>
          (\<exists>e' f'. e' \<noteq> e \<and> fslot E m e' f' \<and> face_lbl E m e' f' = NO_LABEL \<and>
             face_tup E m (e, f) = face_tup E m (e', f') \<and>
             locate_face E e faces f m = label_pair E e f e' f' m))"
proof (cases "face_lbl E m e f = NO_LABEL")
  case False
  then show ?thesis
    using faces by (simp add: locate_face_def face_lbl_def)
next
  case True
  obtain face_verts nface_verts where
    fv: "(face_verts, nface_verts) = get_element_global_face_verts E m e f"
    by (cases "get_element_global_face_verts E m e f") simp
  let ?st = "fold (match_adj_elems E e faces f face_verts nface_verts)
               [0..<nface_verts] (m, False)"
  have ok: "search_ok E m e f ?st"
  proof (rule fold_invariant[where P = "search_ok E m e f"
        and f = "match_adj_elems E e faces f face_verts nface_verts"
        and xs = "[0..<nface_verts]" and s = "(m, False)"])
    show "search_ok E m e f (m, False)" by (simp add: search_ok_def)
  next
    fix mv s assume "search_ok E m e f s"
    then show "search_ok E m e f (match_adj_elems E e faces f face_verts nface_verts mv s)"
      by (rule match_adj_elems_ok[OF _ faces fv])
  qed
  obtain m' located where st: "?st = (m', located)" by (cases ?st)
  have n: "snd (get_element_global_face_verts E m e f) = nface_verts"
    using fv by (metis snd_conv)
  have r: "locate_face E e faces f m =
      (if \<not> located then
         (if nface_verts = 3 then
            (faces_set faces f (ntri_faces m') m')\<lparr>ntri_faces := ntri_faces m' + 1\<rparr>
          else (faces_set faces f (nquad_faces m') m')\<lparr>nquad_faces := nquad_faces m' + 1\<rparr>)
       else m')"
    using True faces st by (simp add: locate_face_def face_lbl_def fv[symmetric])
  show ?thesis
  proof (cases located)
    case False
    then have "m' = m" using ok st by (simp add: search_ok_def)
    then have "locate_face E e faces f m = label_new E e f m"
      using r False by (simp add: label_new_unfold n faces)
    then show ?thesis using True by simp
  next
    case located: True
    then obtain e' f' where "e' \<noteq> e" "fslot E m e' f'" "face_lbl E m e' f' = NO_LABEL"
      "face_tup E m (e, f) = face_tup E m (e', f')" "m' = label_pair E e f e' f' m"
      using ok st by (auto simp: search_ok_def)
    then show ?thesis using True r located by auto
  qed
qed

definition elem_total :: "MeshConnectivity3D \<Rightarrow> nat" where
  "elem_total m = ntets m + nhex m + nwedge m + npyrmd m"

lemma elem_total_topo: "topo m = topo m' \<Longrightarrow> elem_total m = elem_total m'"
  by (simp add: elem_total_def topo_def)

lemma locate_face_step:
  assumes inv: "faces_inv E m" and s: "fslot E m e f"
    and faces: "faces = fst (get_element_faces E m e)"
    and bound: "elem_total m * max_faces E < NO_LABEL"
  shows "faces_inv E (locate_face E e faces f m)"
    and "topo (locate_face E e faces f m) = topo m"
    and "face_lbl E (locate_face E e faces f m) e f \<noteq> NO_LABEL"
    and "\<And>a b. fslot E m a b \<Longrightarrow> face_lbl E m a b \<noteq> NO_LABEL \<Longrightarrow>
           face_lbl E (locate_face E e faces f m) a b = face_lbl E m a b"
proof -
  let ?r = "locate_face E e faces f m"
  let ?v = "face_cnt m (face_cls E m (e, f))"
  have wf: "faces_wf E m" using inv by (simp add: faces_inv_def)
  have lt: "?v < NO_LABEL"
    using face_cnt_bound[OF inv] bound by (simp add: elem_total_def)
  consider (old) "face_lbl E m e f \<noteq> NO_LABEL" "?r = m"
    | (new) "face_lbl E m e f = NO_LABEL" "?r = label_new E e f m"
    | (pair) e' f' where "face_lbl E m e f = NO_LABEL" "e' \<noteq> e" "fslot E m e' f'"
        "face_lbl E m e' f' = NO_LABEL" "face_tup E m (e, f) = face_tup E m (e', f')"
        "?r = label_pair E e f e' f' m"
    using locate_face_cases[OF faces, of f] by blast
  then have "faces_inv E ?r \<and> topo ?r = topo m \<and> face_lbl E ?r e f \<noteq> NO_LABEL \<and>
      (\<forall>a b. fslot E m a b \<longrightarrow> face_lbl E m a b \<noteq> NO_LABEL \<longrightarrow>
         face_lbl E ?r a b = face_lbl E m a b)"
  proof cases
    case old
    then show ?thesis using inv by simp
  next
    case new
    have 1: "faces_inv E (label_new E e f m)"
      using inv s new(1) lt by (rule label_new_inv)
    have 2: "face_lbl E (label_new E e f m) e f \<noteq> NO_LABEL"
      using label_new_lbl[OF wf s s] lt by simp
    have 3: "face_lbl E (label_new E e f m) a b = face_lbl E m a b"
      if "fslot E m a b" "face_lbl E m a b \<noteq> NO_LABEL" for a b
    proof -
      have "(a, b) \<noteq> (e, f)" using that(2) new(1) by auto
      then show ?thesis using label_new_lbl[OF wf s that(1)] by auto
    qed
    show ?thesis
      unfolding new(2) using 1 2 3 label_new_topo by blast
  next
    case pair
    have ne: "e \<noteq> e'" using pair(2) by simp
    have 1: "faces_inv E (label_pair E e f e' f' m)"
      using inv s pair(3) ne pair(5) pair(1) pair(4) lt by (rule label_pair_inv)
    have 2: "face_lbl E (label_pair E e f e' f' m) e f \<noteq> NO_LABEL"
      using label_pair_lbl[OF wf s pair(3) s] lt by simp
    have 3: "face_lbl E (label_pair E e f e' f' m) a b = face_lbl E m a b"
      if "fslot E m a b" "face_lbl E m a b \<noteq> NO_LABEL" for a b
    proof -
      have "(a, b) \<noteq> (e, f)" "(a, b) \<noteq> (e', f')" using that(2) pair(1,4) by auto
      then show ?thesis using label_pair_lbl[OF wf s pair(3) that(1)] by auto
    qed
    show ?thesis
      unfolding pair(6) using 1 2 3 label_pair_topo by blast
  qed
  then show "faces_inv E ?r" "topo ?r = topo m" "face_lbl E ?r e f \<noteq> NO_LABEL"
    "\<And>a b. fslot E m a b \<Longrightarrow> face_lbl E m a b \<noteq> NO_LABEL \<Longrightarrow>
       face_lbl E ?r a b = face_lbl E m a b"
    by blast+
qed

definition labelled_upto ::
  "ElementTypes \<Rightarrow> MeshConnectivity3D \<Rightarrow> MeshConnectivity3D \<Rightarrow> nat \<Rightarrow> nat \<Rightarrow> bool" where
  "labelled_upto E m0 m e f =
     (faces_inv E m \<and> topo m = topo m0 \<and>
      (\<forall>a b. fslot E m0 a b \<longrightarrow> a < e \<or> (a = e \<and> b < f) \<longrightarrow> face_lbl E m a b \<noteq> NO_LABEL))"

lemma labelled_upto_step:
  assumes l: "labelled_upto E m0 m e f" and s: "fslot E m0 e f"
    and bound: "elem_total m0 * max_faces E < NO_LABEL"
  shows "labelled_upto E m0 (locate_face E e (fst (get_element_faces E m e)) f m) e (Suc f)"
proof -
  let ?r = "locate_face E e (fst (get_element_faces E m e)) f m"
  have inv: "faces_inv E m" and t: "topo m = topo m0"
    and lab: "\<And>a b. fslot E m0 a b \<Longrightarrow> a < e \<or> (a = e \<and> b < f) \<Longrightarrow>
        face_lbl E m a b \<noteq> NO_LABEL"
    using l unfolding labelled_upto_def by blast+
  have sl: "fslot E m = fslot E m0" by (rule fslot_topo[OF t])
  have s': "fslot E m e f" using s sl by simp
  have b': "elem_total m * max_faces E < NO_LABEL"
    using bound elem_total_topo[OF t] by simp
  note st = locate_face_step[OF inv s' refl b']
  have "face_lbl E ?r a b \<noteq> NO_LABEL" if "fslot E m0 a b" "a < e \<or> (a = e \<and> b < Suc f)" for a b
  proof (cases "a = e \<and> b = f")
    case True
    then show ?thesis using st(3) by simp
  next
    case False
    then have "a < e \<or> (a = e \<and> b < f)" using that(2) by auto
    then have "face_lbl E m a b \<noteq> NO_LABEL" using lab[OF that(1)] by simp
    then show ?thesis using st(4)[of a b] that(1) sl by simp
  qed
  then show ?thesis
    unfolding labelled_upto_def using st(1) st(2) t by simp
qed

lemma number_faces_labelled:
  assumes inv0: "faces_inv E m0" and n: "nelems m0 = elem_total m0"
    and bound: "elem_total m0 * max_faces E < NO_LABEL"
  shows "labelled_upto E m0 (number_faces E m0) (nelems m0) 0"
proof -
  let ?outer = "\<lambda>elem m. case get_element_faces E m elem of (faces, nf) \<Rightarrow>
                  fold (locate_face E elem faces) [0..<nf] m"
  have "labelled_upto E m0 (fold ?outer [0..<nelems m0] m0) (nelems m0) 0"
  proof (rule fold_upt_invariant[where P = "\<lambda>e m. labelled_upto E m0 m e 0" and f = ?outer
        and n = "nelems m0" and s = m0])
    show "labelled_upto E m0 m0 0 0"
      using inv0 by (simp add: labelled_upto_def)
  next
    fix e m
    assume e: "e < nelems m0" and P: "labelled_upto E m0 m e 0"
    have t: "topo m = topo m0" using P by (simp add: labelled_upto_def)
    obtain faces nf where g: "get_element_faces E m e = (faces, nf)"
      by (cases "get_element_faces E m e")
    have g0: "get_element_faces E m0 e = (faces, nf)"
      using topo_accessors(1)[OF t, of E] g by simp
    have inner: "labelled_upto E m0 (fold (locate_face E e faces) [0..<nf] m) e nf"
    proof (rule fold_upt_invariant[where P = "\<lambda>f m. labelled_upto E m0 m e f"
          and f = "locate_face E e faces" and n = nf and s = m])
      show "labelled_upto E m0 m e 0" by (rule P)
    next
      fix f m'
      assume f: "f < nf" and Q: "labelled_upto E m0 m' e f"
      have t': "topo m' = topo m0" using Q by (simp add: labelled_upto_def)
      have fp: "fst (get_element_faces E m' e) = faces"
        using topo_accessors(1)[OF t', of E] g0 by simp
      have "fslot E m0 e f" using f g0 by (simp add: fslot_def)
      from labelled_upto_step[OF Q this bound]
      show "labelled_upto E m0 (locate_face E e faces f m') e (Suc f)"
        by (simp add: fp)
    qed
    have "labelled_upto E m0 (fold (locate_face E e faces) [0..<nf] m) (Suc e) 0"
    proof -
      let ?m = "fold (locate_face E e faces) [0..<nf] m"
      have a: "faces_inv E ?m" "topo ?m = topo m0"
        and lab: "\<And>a b. fslot E m0 a b \<Longrightarrow> a < e \<or> (a = e \<and> b < nf) \<Longrightarrow>
            face_lbl E ?m a b \<noteq> NO_LABEL"
        using inner unfolding labelled_upto_def by blast+
      have "face_lbl E ?m a b \<noteq> NO_LABEL" if "fslot E m0 a b" "a < Suc e" for a b
      proof -
        have "a = e \<Longrightarrow> b < nf" using that(1) g0 by (simp add: fslot_def)
        then have "a < e \<or> (a = e \<and> b < nf)" using that(2) by auto
        then show ?thesis using lab[OF that(1)] by simp
      qed
      then show ?thesis
        unfolding labelled_upto_def using a by simp
    qed
    then show "labelled_upto E m0 (?outer e m) (Suc e) 0"
      by (simp add: g)
  qed
  then show ?thesis
    by (simp add: number_faces_def)
qed

lemma replicate_faces_inv:
  assumes "tet_faces m = replicate (TET_FACES E * ntets m) NO_LABEL"
    and "hex_faces m = replicate (HEX_FACES E * nhex m) NO_LABEL"
    and "wedge_faces m = replicate (WEDGE_FACES E * nwedge m) NO_LABEL"
    and "pyrmd_faces m = replicate (PYRMD_FACES E * npyrmd m) NO_LABEL"
    and "ntri_faces m = 0" and "nquad_faces m = 0"
  shows "faces_inv E m"
proof -
  have arr: "faces_arr m sh = replicate (faces_per E sh * shape_count m sh) NO_LABEL" for sh
    using assms(1-4) by (cases sh) (simp_all add: faces_arr_def faces_per_def shape_count_def)
  have wf: "faces_wf E m"
    by (simp add: faces_wf_def arr)
  have un: "slot_lbl E m s = NO_LABEL" if s: "s \<in> fslots E m" for s
  proof -
    obtain sh l where k: "elem_kind m (fst s) = Some (sh, l)" and f: "snd s < faces_per E sh"
      using s by (auto simp: fslots_def fslot_kind)
    have l: "l < shape_count m sh" using k by (rule elem_kind_bound)
    have "faces_per E sh * l + snd s < faces_per E sh * shape_count m sh"
      using block_index_bound[OF l f] by (simp add: mult.commute)
    then show ?thesis
      by (simp add: slot_lbl_def face_lbl_def get_element_faces_kind k faces_at_arr arr)
  qed
  have cnt: "face_cnt m c = 0" for c
    using assms(5,6) by (cases c) (simp_all add: face_cnt_def)
  have "linv (fslots E m) fst (face_cls E m) (face_tup E m) (slot_lbl E m) (face_cnt m)"
    by (rule linvI) (simp_all add: un cnt)
  then show ?thesis
    using wf by (simp add: faces_inv_def)
qed

section \<open>Face numbering: the second sweep\<close>

text \<open>
  The second sweep of \<open>init_face_data\<close> visits the local faces in order. After the faces
  before local face \<open>f\<close> of element \<open>e\<close> have been visited, the two entries of a face in
  \<open>tri_face_elements\<close> or \<open>quad_face_elements\<close> hold the elements among the visited
  ones that carry this face, in the order they were visited (\<open>enc\<close>), and the
  quadrilateral faces visited have had the triangle count added to their index.
\<close>

definition enc :: "nat \<Rightarrow> nat \<Rightarrow> nat set \<Rightarrow> bool" where
  "enc x y A =
     ((A = {} \<and> x = NO_LABEL \<and> y = NO_LABEL) \<or>
      (A = {x} \<and> x \<noteq> NO_LABEL \<and> y = NO_LABEL) \<or>
      (A = {x, y} \<and> x \<noteq> y \<and> x \<noteq> NO_LABEL \<and> y \<noteq> NO_LABEL))"

lemma enc_insert:
  assumes e: "enc x y A" and a: "a \<notin> A" and an: "a \<noteq> NO_LABEL"
    and two: "\<And>p q. p \<in> A \<Longrightarrow> q \<in> A \<Longrightarrow> p \<noteq> q \<Longrightarrow> False"
  shows "enc (if x = NO_LABEL then a else x)
             (if x = NO_LABEL then y else if y = NO_LABEL then a else y) (insert a A)"
proof -
  consider "A = {}" "x = NO_LABEL" "y = NO_LABEL"
    | "A = {x}" "x \<noteq> NO_LABEL" "y = NO_LABEL"
    | "A = {x, y}" "x \<noteq> y" "x \<noteq> NO_LABEL" "y \<noteq> NO_LABEL"
    using e unfolding enc_def by blast
  then show ?thesis
  proof cases
    case 1
    then show ?thesis using an by (simp add: enc_def)
  next
    case 2
    then have "a \<noteq> x" using a by auto
    then show ?thesis using 2 an by (auto simp: enc_def)
  next
    case 3
    then have False using two[of x y] by simp
    then show ?thesis ..
  qed
qed

definition elems_arr :: "MeshConnectivity3D \<Rightarrow> arity \<Rightarrow> nat list" where
  "elems_arr m c = (case c of Tri \<Rightarrow> tri_face_elements m | Quad \<Rightarrow> quad_face_elements m)"

definition elems_set :: "arity \<Rightarrow> nat \<Rightarrow> nat \<Rightarrow> MeshConnectivity3D \<Rightarrow> MeshConnectivity3D" where
  "elems_set c i v m =
     (case c of
        Tri \<Rightarrow> m\<lparr>tri_face_elements := (tri_face_elements m)[i := v]\<rparr>
      | Quad \<Rightarrow> m\<lparr>quad_face_elements := (quad_face_elements m)[i := v]\<rparr>)"

definition put_elem :: "arity \<Rightarrow> nat \<Rightarrow> nat \<Rightarrow> MeshConnectivity3D \<Rightarrow> MeshConnectivity3D" where
  "put_elem c k e m =
     (if elems_arr m c ! (2 * k) = NO_LABEL then elems_set c (2 * k) e m
      else if elems_arr m c ! (2 * k + 1) = NO_LABEL then elems_set c (2 * k + 1) e m
      else m)"

lemma record_face_element_unfold:
  "record_face_element E e faces f m =
     (case face_cls E m (e, f) of
        Tri \<Rightarrow> put_elem Tri (faces_at m faces f) e m
      | Quad \<Rightarrow>
          faces_set faces f
            (faces_at (put_elem Quad (faces_at m faces f) e m) faces f
               + ntri_faces (put_elem Quad (faces_at m faces f) e m))
            (put_elem Quad (faces_at m faces f) e m))"
  by (simp add: record_face_element_def face_cls_def put_elem_def elems_arr_def elems_set_def
      Let_def split: prod.splits)

lemma elems_set_frame:
  "topo (elems_set c i v m) = topo m"
  "faces_arr (elems_set c i v m) = faces_arr m"
  "face_cnt (elems_set c i v m) = face_cnt m"
  "nfaces (elems_set c i v m) = nfaces m"
  by (simp_all add: elems_set_def topo_def faces_arr_def face_cnt_def fun_eq_iff
      split: arity.splits shape.splits)

lemma elems_arr_set:
  "elems_arr (elems_set c i v m) c' =
     (if c' = c then (elems_arr m c)[i := v] else elems_arr m c')"
  by (simp add: elems_set_def elems_arr_def split: arity.splits)

lemma put_elem_frame:
  "topo (put_elem c k e m) = topo m"
  "faces_arr (put_elem c k e m) = faces_arr m"
  "face_cnt (put_elem c k e m) = face_cnt m"
  "nfaces (put_elem c k e m) = nfaces m"
  by (simp_all add: put_elem_def elems_set_frame)

lemma put_elem_arr:
  assumes "2 * k + 1 < length (elems_arr m c)"
  shows "elems_arr (put_elem c k e m) c' ! j =
     (if c' = c \<and> j = 2 * k then
        (if elems_arr m c ! (2 * k) = NO_LABEL then e else elems_arr m c ! (2 * k))
      else if c' = c \<and> j = 2 * k + 1 then
        (if elems_arr m c ! (2 * k) = NO_LABEL then elems_arr m c ! (2 * k + 1)
         else if elems_arr m c ! (2 * k + 1) = NO_LABEL then e
         else elems_arr m c ! (2 * k + 1))
      else elems_arr m c' ! j)"
  using assms by (simp add: put_elem_def elems_arr_set)

lemma put_elem_arr_other:
  assumes "2 * k + 1 < length (elems_arr m c)" and "c' \<noteq> c \<or> (j \<noteq> 2 * k \<and> j \<noteq> 2 * k + 1)"
  shows "elems_arr (put_elem c k e m) c' ! j = elems_arr m c' ! j"
  using assms by (auto simp: put_elem_def elems_arr_set)

lemma put_elem_length:
  "length (elems_arr (put_elem c k e m) c') = length (elems_arr m c')"
  by (simp add: put_elem_def elems_arr_set)

lemma faces_set_elems: "elems_arr (faces_set p i v m) = elems_arr m"
  by (intro ext) (simp add: elems_arr_def faces_set_frame split: arity.splits)

lemma face_cnt_faces_set: "face_cnt (faces_set p i v m) = face_cnt m"
  by (intro ext) (simp add: face_cnt_def faces_set_frame split: arity.splits)

definition processed :: "nat \<Rightarrow> nat \<Rightarrow> nat \<times> nat \<Rightarrow> bool" where
  "processed e f s = (fst s < e \<or> (fst s = e \<and> snd s < f))"

definition holders ::
  "ElementTypes \<Rightarrow> MeshConnectivity3D \<Rightarrow> arity \<Rightarrow> nat \<Rightarrow> nat \<Rightarrow> nat \<Rightarrow> nat set" where
  "holders E m1 c k e f =
     {a. \<exists>b. fslot E m1 a b \<and> processed e f (a, b) \<and> face_cls E m1 (a, b) = c \<and>
              face_lbl E m1 a b = k}"

definition pass2_inv ::
  "ElementTypes \<Rightarrow> MeshConnectivity3D \<Rightarrow> nat \<Rightarrow> nat \<Rightarrow> MeshConnectivity3D \<Rightarrow> bool" where
  "pass2_inv E m1 e f m =
     (topo m = topo m1 \<and> face_cnt m = face_cnt m1 \<and> nfaces m = nfaces m1 \<and> faces_wf E m \<and>
      (\<forall>c. length (elems_arr m c) = 2 * face_cnt m1 c) \<and>
      (\<forall>a b. fslot E m1 a b \<longrightarrow>
         face_lbl E m a b =
           (if face_cls E m1 (a, b) = Quad \<and> processed e f (a, b)
            then face_lbl E m1 a b + ntri_faces m1 else face_lbl E m1 a b)) \<and>
      (\<forall>c k. k < face_cnt m1 c \<longrightarrow>
         enc (elems_arr m c ! (2 * k)) (elems_arr m c ! (2 * k + 1)) (holders E m1 c k e f)))"

lemma pass2_invD:
  assumes "pass2_inv E m1 e f m"
  shows "topo m = topo m1" "face_cnt m = face_cnt m1" "nfaces m = nfaces m1" "faces_wf E m"
    "\<And>c. length (elems_arr m c) = 2 * face_cnt m1 c"
    "\<And>a b. fslot E m1 a b \<Longrightarrow>
       face_lbl E m a b =
         (if face_cls E m1 (a, b) = Quad \<and> processed e f (a, b)
          then face_lbl E m1 a b + ntri_faces m1 else face_lbl E m1 a b)"
    "\<And>c k. k < face_cnt m1 c \<Longrightarrow>
       enc (elems_arr m c ! (2 * k)) (elems_arr m c ! (2 * k + 1)) (holders E m1 c k e f)"
  using assms unfolding pass2_inv_def by blast+

lemma pass2_invI:
  assumes "topo m = topo m1" "face_cnt m = face_cnt m1" "nfaces m = nfaces m1" "faces_wf E m"
    "\<And>c. length (elems_arr m c) = 2 * face_cnt m1 c"
    "\<And>a b. fslot E m1 a b \<Longrightarrow>
       face_lbl E m a b =
         (if face_cls E m1 (a, b) = Quad \<and> processed e f (a, b)
          then face_lbl E m1 a b + ntri_faces m1 else face_lbl E m1 a b)"
    "\<And>c k. k < face_cnt m1 c \<Longrightarrow>
       enc (elems_arr m c ! (2 * k)) (elems_arr m c ! (2 * k + 1)) (holders E m1 c k e f)"
  shows "pass2_inv E m1 e f m"
  unfolding pass2_inv_def using assms by blast

lemma holders_Suc:
  assumes "fslot E m1 e f"
  shows "holders E m1 c k e (Suc f) =
     (if face_cls E m1 (e, f) = c \<and> face_lbl E m1 e f = k
      then insert e (holders E m1 c k e f) else holders E m1 c k e f)"
proof -
  have p: "processed e (Suc f) (a, b) = (processed e f (a, b) \<or> (a = e \<and> b = f))" for a b
    by (auto simp: processed_def)
  show ?thesis
    unfolding holders_def p using assms by auto
qed

lemma holders_next_elem:
  assumes "snd (get_element_faces E m1 e) = nf"
  shows "holders E m1 c k e nf = holders E m1 c k (Suc e) 0"
proof -
  have "(fslot E m1 a b \<and> processed e nf (a, b)) = (fslot E m1 a b \<and> processed (Suc e) 0 (a, b))"
    for a b
    using assms by (auto simp: processed_def fslot_def less_Suc_eq)
  then show ?thesis
    unfolding holders_def by blast
qed

lemma processed_Suc: "processed e (Suc f) (a, b) = (processed e f (a, b) \<or> (a = e \<and> b = f))"
  by (auto simp: processed_def)

lemma put_elem_step:
  assumes inv1: "faces_inv E m1"
    and p: "pass2_inv E m1 e f m" and s: "fslot E m1 e f" and eN: "e \<noteq> NO_LABEL"
    and kdef: "k = face_lbl E m1 e f" and cdef: "c = face_cls E m1 (e, f)"
    and kN: "k \<noteq> NO_LABEL"
  shows "k < face_cnt m1 c"
    and "\<And>c'. length (elems_arr (put_elem c k e m) c') = 2 * face_cnt m1 c'"
    and "\<And>c' k'. k' < face_cnt m1 c' \<Longrightarrow>
       enc (elems_arr (put_elem c k e m) c' ! (2 * k'))
           (elems_arr (put_elem c k e m) c' ! (2 * k' + 1)) (holders E m1 c' k' e (Suc f))"
proof -
  note d = pass2_invD[OF p]
  have li: "linv (fslots E m1) fst (face_cls E m1) (face_tup E m1) (slot_lbl E m1) (face_cnt m1)"
    using inv1 by (simp add: faces_inv_def)
  have sin: "(e, f) \<in> fslots E m1" using s by (simp add: fslots_def)
  have lk: "slot_lbl E m1 (e, f) = k" using kdef by (simp add: slot_lbl_def)
  show klt: "k < face_cnt m1 c"
    using linvD(1)[OF li sin] lk kN cdef by simp
  have len: "2 * k + 1 < length (elems_arr m c)"
    using klt d(5)[of c] by simp
  show "\<And>c'. length (elems_arr (put_elem c k e m) c') = 2 * face_cnt m1 c'"
    using d(5) by (simp add: put_elem_length)
  let ?A = "holders E m1 c k e f"
  have encA: "enc (elems_arr m c ! (2 * k)) (elems_arr m c ! (2 * k + 1)) ?A"
    by (rule d(7)[OF klt])
  have slotA: "\<exists>b. (a, b) \<in> fslots E m1 \<and> (a, b) \<noteq> (e, f) \<and> (a = e \<or> a < e) \<and>
      face_cls E m1 (a, b) = c \<and> slot_lbl E m1 (a, b) = k" if "a \<in> ?A" for a
    using that by (auto simp: holders_def processed_def fslots_def slot_lbl_def)
  have notin: "e \<notin> ?A"
  proof
    assume "e \<in> ?A"
    then obtain b where b: "(e, b) \<in> fslots E m1" "(e, b) \<noteq> (e, f)"
      "face_cls E m1 (e, b) = c" "slot_lbl E m1 (e, b) = k"
      using slotA by blast
    have f1: "slot_lbl E m1 (e, f) \<noteq> NO_LABEL" using lk kN by simp
    have f2: "slot_lbl E m1 (e, f) = slot_lbl E m1 (e, b)" using lk b(4) by simp
    have f4: "face_cls E m1 (e, f) = face_cls E m1 (e, b)" using cdef b(3) by metis
    have f6: "(e, f) \<noteq> (e, b)" using b(2) by metis
    have "fst (e, f) \<noteq> fst (e, b) \<and> face_tup E m1 (e, f) = face_tup E m1 (e, b)"
      by (rule linvD(2)[OF li sin b(1) f1 f2 f4 f6])
    then show False by simp
  qed
  have one: False if pA: "p \<in> ?A" and qA: "q \<in> ?A" and pq: "p \<noteq> q" for p q
  proof -
    obtain b1 where b1: "(p, b1) \<in> fslots E m1" "face_cls E m1 (p, b1) = c"
        "slot_lbl E m1 (p, b1) = k"
      using slotA[OF pA] by blast
    obtain b2 where b2: "(q, b2) \<in> fslots E m1" "face_cls E m1 (q, b2) = c"
        "slot_lbl E m1 (q, b2) = k"
      using slotA[OF qA] by blast
    have pe: "p \<noteq> e" "q \<noteq> e" using pA qA notin by auto
    have f1: "slot_lbl E m1 (e, f) \<noteq> NO_LABEL" using lk kN by simp
    have f2: "slot_lbl E m1 (e, f) = slot_lbl E m1 (p, b1)" using lk b1(3) by simp
    have f3: "slot_lbl E m1 (e, f) = slot_lbl E m1 (q, b2)" using lk b2(3) by simp
    have f4: "face_cls E m1 (e, f) = face_cls E m1 (p, b1)" using cdef b1(2) by metis
    have f5: "face_cls E m1 (e, f) = face_cls E m1 (q, b2)" using cdef b2(2) by metis
    have "(e, f) = (p, b1) \<or> (e, f) = (q, b2) \<or> (p, b1) = (q, b2)"
      by (rule linvD(3)[OF li sin b1(1) b2(1) f1 f2 f3 f4 f5])
    then show False using pe pq by simp
  qed
  have enc': "enc (if elems_arr m c ! (2 * k) = NO_LABEL then e else elems_arr m c ! (2 * k))
      (if elems_arr m c ! (2 * k) = NO_LABEL then elems_arr m c ! (2 * k + 1)
       else if elems_arr m c ! (2 * k + 1) = NO_LABEL then e else elems_arr m c ! (2 * k + 1))
      (insert e ?A)"
    using encA notin eN one by (rule enc_insert)
  show "enc (elems_arr (put_elem c k e m) c' ! (2 * k'))
           (elems_arr (put_elem c k e m) c' ! (2 * k' + 1)) (holders E m1 c' k' e (Suc f))"
    if k': "k' < face_cnt m1 c'" for c' k'
  proof (cases "c' = c \<and> k' = k")
    case True
    have h: "holders E m1 c k e (Suc f) = insert e ?A"
      using holders_Suc[OF s, of c k] kdef cdef by simp
    have "elems_arr (put_elem c k e m) c ! (2 * k) =
        (if elems_arr m c ! (2 * k) = NO_LABEL then e else elems_arr m c ! (2 * k))"
      using put_elem_arr[OF len, of e c "2 * k"] by simp
    moreover have "elems_arr (put_elem c k e m) c ! (2 * k + 1) =
        (if elems_arr m c ! (2 * k) = NO_LABEL then elems_arr m c ! (2 * k + 1)
         else if elems_arr m c ! (2 * k + 1) = NO_LABEL then e else elems_arr m c ! (2 * k + 1))"
      using put_elem_arr[OF len, of e c "2 * k + 1"] by simp
    ultimately show ?thesis
      using enc' True h by simp
  next
    case False
    have h: "holders E m1 c' k' e (Suc f) = holders E m1 c' k' e f"
      using holders_Suc[OF s, of c' k'] False kdef cdef by auto
    have ne: "c' \<noteq> c \<or> (2 * k' \<noteq> 2 * k \<and> 2 * k' \<noteq> 2 * k + 1)"
      "c' \<noteq> c \<or> (2 * k' + 1 \<noteq> 2 * k \<and> 2 * k' + 1 \<noteq> 2 * k + 1)"
    proof -
      have "k' \<noteq> k \<Longrightarrow> 2 * k' \<noteq> 2 * k \<and> 2 * k' \<noteq> 2 * k + 1 \<and>
          2 * k' + 1 \<noteq> 2 * k \<and> 2 * k' + 1 \<noteq> 2 * k + 1"
        by presburger
      then show "c' \<noteq> c \<or> (2 * k' \<noteq> 2 * k \<and> 2 * k' \<noteq> 2 * k + 1)"
        "c' \<noteq> c \<or> (2 * k' + 1 \<noteq> 2 * k \<and> 2 * k' + 1 \<noteq> 2 * k + 1)"
        using False by blast+
    qed
    have "elems_arr (put_elem c k e m) c' ! (2 * k') = elems_arr m c' ! (2 * k')"
      by (rule put_elem_arr_other[OF len ne(1)])
    moreover have "elems_arr (put_elem c k e m) c' ! (2 * k' + 1) = elems_arr m c' ! (2 * k' + 1)"
      by (rule put_elem_arr_other[OF len ne(2)])
    ultimately show ?thesis
      using d(7)[OF k'] h by simp
  qed
qed

lemma record_face_element_step:
  assumes inv1: "faces_inv E m1"
    and lab: "\<And>a b. fslot E m1 a b \<Longrightarrow> face_lbl E m1 a b \<noteq> NO_LABEL"
    and p: "pass2_inv E m1 e f m" and s: "fslot E m1 e f" and eN: "e \<noteq> NO_LABEL"
  shows "pass2_inv E m1 e (Suc f) (record_face_element E e (fst (get_element_faces E m e)) f m)"
proof -
  note d = pass2_invD[OF p]
  define c where "c = face_cls E m1 (e, f)"
  define k where "k = face_lbl E m1 e f"
  let ?c = c
  let ?k = k
  let ?faces = "fst (get_element_faces E m e)"
  let ?m' = "put_elem ?c ?k e m"
  have np: "\<not> processed e f (e, f)" by (simp add: processed_def)
  have cur: "face_lbl E m e f = ?k"
    using d(6)[OF s] np by (simp add: k_def)
  have fa: "faces_at m ?faces f = ?k"
    using cur by (simp add: face_lbl_def)
  have cls_m: "face_cls E m (e, f) = ?c"
    using topo_slots(2)[OF d(1), of E] by (simp add: c_def)
  have kN: "k \<noteq> NO_LABEL" using lab[OF s] by (simp add: k_def)
  note pe = put_elem_step[OF inv1 p s eN k_def c_def kN]
  have t': "topo ?m' = topo m1" using d(1) by (simp add: put_elem_frame)
  have c': "face_cnt ?m' = face_cnt m1" using d(2) by (simp add: put_elem_frame)
  have n': "nfaces ?m' = nfaces m1" using d(3) by (simp add: put_elem_frame)
  have lbl': "face_lbl E ?m' = face_lbl E m"
    by (rule face_lbl_arr) (simp_all add: put_elem_frame)
  have wf': "faces_wf E ?m'"
    using faces_wf_arr[of ?m' m E] d(4) by (simp add: put_elem_frame)
  have sl: "fslot E ?m' = fslot E m1" by (rule fslot_topo[OF t'])
  show ?thesis
  proof (cases ?c)
    case Tri
    have r: "record_face_element E e ?faces f m = ?m'"
      using fa unfolding Tri
      by (simp add: record_face_element_unfold cls_m[unfolded Tri])
    show ?thesis
      unfolding r
    proof (rule pass2_invI)
      show "topo ?m' = topo m1" "face_cnt ?m' = face_cnt m1" "nfaces ?m' = nfaces m1"
        "faces_wf E ?m'"
        by (rule t' c' n' wf')+
      show "\<And>c. length (elems_arr ?m' c) = 2 * face_cnt m1 c" by (rule pe(2))
      show "\<And>c k. k < face_cnt m1 c \<Longrightarrow>
          enc (elems_arr ?m' c ! (2 * k)) (elems_arr ?m' c ! (2 * k + 1))
            (holders E m1 c k e (Suc f))"
        by (rule pe(3))
      fix a b assume ab: "fslot E m1 a b"
      show "face_lbl E ?m' a b =
          (if face_cls E m1 (a, b) = Quad \<and> processed e (Suc f) (a, b)
           then face_lbl E m1 a b + ntri_faces m1 else face_lbl E m1 a b)"
      proof -
        have l: "face_lbl E ?m' a b = face_lbl E m a b" by (simp add: lbl')
        have q: "face_cls E m1 (a, b) = Quad \<Longrightarrow> \<not> (a = e \<and> b = f)"
          using Tri c_def by auto
        show ?thesis
          unfolding l using d(6)[OF ab] q by (auto simp: processed_Suc)
      qed
    qed
  next
    case Quad
    have g': "fst (get_element_faces E ?m' e) = ?faces"
      using topo_accessors(1)[of ?m' m E] by (simp add: put_elem_frame)
    have nt: "ntri_faces ?m' = ntri_faces m1"
      using c' by (simp add: face_cnt_def fun_eq_iff split: arity.splits)
    have "face_lbl E ?m' e f = k" using cur by (simp add: lbl')
    then have fa': "faces_at ?m' ?faces f = ?k"
      using g' by (simp add: face_lbl_def)
    have r: "record_face_element E e ?faces f m = face_put E e f (?k + ntri_faces m1) ?m'"
      using fa fa' nt g' unfolding Quad
      by (simp add: record_face_element_unfold cls_m[unfolded Quad] face_put_def)
    let ?r = "face_put E e f (?k + ntri_faces m1) ?m'"
    have s': "fslot E ?m' e f" using s sl by simp
    show ?thesis
      unfolding r
    proof (rule pass2_invI)
      show "topo ?r = topo m1" using t' by (simp add: face_put_frame)
      show "face_cnt ?r = face_cnt m1" using c' by (simp add: face_cnt_put)
      show "nfaces ?r = nfaces m1" using n' by (simp add: face_put_frame)
      show "faces_wf E ?r" by (rule face_put_wf[OF wf'])
      show "\<And>c. length (elems_arr ?r c) = 2 * face_cnt m1 c"
        using pe(2) by (simp add: face_put_def faces_set_elems)
      show "\<And>c k. k < face_cnt m1 c \<Longrightarrow>
          enc (elems_arr ?r c ! (2 * k)) (elems_arr ?r c ! (2 * k + 1))
            (holders E m1 c k e (Suc f))"
        using pe(3) by (simp add: face_put_def faces_set_elems)
      fix a b assume ab: "fslot E m1 a b"
      then have ab': "fslot E ?m' a b" using sl by simp
      show "face_lbl E ?r a b =
          (if face_cls E m1 (a, b) = Quad \<and> processed e (Suc f) (a, b)
           then face_lbl E m1 a b + ntri_faces m1 else face_lbl E m1 a b)"
      proof (cases "(a, b) = (e, f)")
        case True
        then show ?thesis
          using face_lbl_put_same[OF wf' s'] Quad by (simp add: processed_Suc c_def k_def)
      next
        case False
        have "face_lbl E ?r a b = face_lbl E m a b"
          using face_lbl_put_other[OF wf' s' ab' False] by (simp add: lbl')
        then show ?thesis
          using d(6)[OF ab] False by (auto simp: processed_Suc)
      qed
    qed
  qed
qed

lemma fslot_elem_lt:
  assumes "fslot E m e f" and "elem_total m * max_faces E < NO_LABEL"
  shows "e \<noteq> NO_LABEL"
proof -
  obtain sh l where k: "elem_kind m e = Some (sh, l)" and f: "f < faces_per E sh"
    using assms(1) by (auto simp: fslot_kind)
  have "0 < max_faces E" using f faces_per_le[of E sh] by simp
  moreover have "e < elem_total m" using k by (auto simp: elem_total_def dest: elem_kind_lt)
  ultimately have "e < elem_total m * max_faces E"
    by (metis One_nat_def Suc_leI less_le_trans mult.right_neutral mult_le_mono2)
  then show ?thesis using assms(2) by simp
qed

lemma set_face_elements_inv:
  assumes inv1: "faces_inv E m1"
    and lab: "\<And>a b. fslot E m1 a b \<Longrightarrow> face_lbl E m1 a b \<noteq> NO_LABEL"
    and p0: "pass2_inv E m1 0 0 m1"
    and bound: "elem_total m1 * max_faces E < NO_LABEL"
  shows "pass2_inv E m1 (nelems m1) 0 (set_face_elements E m1)"
proof -
  let ?outer = "\<lambda>elem m. case get_element_faces E m elem of (faces, nf) \<Rightarrow>
                  fold (record_face_element E elem faces) [0..<nf] m"
  have "pass2_inv E m1 (nelems m1) 0 (fold ?outer [0..<nelems m1] m1)"
  proof (rule fold_upt_invariant[where P = "\<lambda>e m. pass2_inv E m1 e 0 m" and f = ?outer
        and n = "nelems m1" and s = m1])
    show "pass2_inv E m1 0 0 m1" by (rule p0)
  next
    fix e m
    assume P: "pass2_inv E m1 e 0 m"
    have t: "topo m = topo m1" using P by (rule pass2_invD)
    obtain faces nf where g: "get_element_faces E m e = (faces, nf)"
      by (cases "get_element_faces E m e")
    have g1: "get_element_faces E m1 e = (faces, nf)"
      using topo_accessors(1)[OF t, of E] g by simp
    have inner: "pass2_inv E m1 e nf (fold (record_face_element E e faces) [0..<nf] m)"
    proof (rule fold_upt_invariant[where P = "\<lambda>f m. pass2_inv E m1 e f m"
          and f = "record_face_element E e faces" and n = nf and s = m])
      show "pass2_inv E m1 e 0 m" by (rule P)
    next
      fix f m'
      assume f: "f < nf" and Q: "pass2_inv E m1 e f m'"
      have t': "topo m' = topo m1" using Q by (rule pass2_invD)
      have fp: "fst (get_element_faces E m' e) = faces"
        using topo_accessors(1)[OF t', of E] g1 by simp
      have sl: "fslot E m1 e f" using f g1 by (simp add: fslot_def)
      have eN: "e \<noteq> NO_LABEL" using sl bound by (rule fslot_elem_lt)
      from record_face_element_step[OF inv1 lab Q sl eN]
      show "pass2_inv E m1 e (Suc f) (record_face_element E e faces f m')"
        by (simp add: fp)
    qed
    have h: "holders E m1 c k e nf = holders E m1 c k (Suc e) 0" for c k
      using g1 by (intro holders_next_elem) simp
    have pr: "fslot E m1 a b \<Longrightarrow> processed e nf (a, b) = processed (Suc e) 0 (a, b)" for a b
      using g1 by (auto simp: processed_def fslot_def less_Suc_eq)
    let ?m = "fold (record_face_element E e faces) [0..<nf] m"
    note d = pass2_invD[OF inner]
    have "pass2_inv E m1 (Suc e) 0 ?m"
    proof (rule pass2_invI)
      show "topo ?m = topo m1" "face_cnt ?m = face_cnt m1" "nfaces ?m = nfaces m1"
        "faces_wf E ?m" "\<And>c. length (elems_arr ?m c) = 2 * face_cnt m1 c"
        by (rule d)+
      show "\<And>c k. k < face_cnt m1 c \<Longrightarrow>
          enc (elems_arr ?m c ! (2 * k)) (elems_arr ?m c ! (2 * k + 1))
            (holders E m1 c k (Suc e) 0)"
        using d(7) by (simp add: h)
      fix a b assume ab: "fslot E m1 a b"
      show "face_lbl E ?m a b =
          (if face_cls E m1 (a, b) = Quad \<and> processed (Suc e) 0 (a, b)
           then face_lbl E m1 a b + ntri_faces m1 else face_lbl E m1 a b)"
        using d(6)[OF ab] pr[OF ab] by simp
    qed
    then show "pass2_inv E m1 (Suc e) 0 (?outer e m)"
      by (simp add: g)
  qed
  then show ?thesis
    by (simp add: set_face_elements_def)
qed

lemma faces_inv_cong:
  assumes t: "topo m = topo m'" and a: "faces_arr m = faces_arr m'"
    and c: "face_cnt m = face_cnt m'"
  shows "faces_inv E m = faces_inv E m'"
proof -
  have "slot_lbl E m = slot_lbl E m'"
    by (intro ext) (simp add: slot_lbl_def face_lbl_arr[OF t a])
  then show ?thesis
    unfolding faces_inv_def
    by (simp add: faces_wf_arr[OF t a] topo_slots[OF t] c)
qed

definition first_sweep :: "ElementTypes \<Rightarrow> MeshConnectivity3D \<Rightarrow> MeshConnectivity3D" where
  "first_sweep E m0 =
     (let m1 = m0\<lparr>tet_faces := replicate (TET_FACES E * ntets m0) NO_LABEL,
                  hex_faces := replicate (HEX_FACES E * nhex m0) NO_LABEL,
                  wedge_faces := replicate (WEDGE_FACES E * nwedge m0) NO_LABEL,
                  pyrmd_faces := replicate (PYRMD_FACES E * npyrmd m0) NO_LABEL,
                  ntri_faces := 0, nquad_faces := 0, nfaces := 0\<rparr>;
          m2 = number_faces E m1;
          m3 = m2\<lparr>nfaces := ntri_faces m2 + nquad_faces m2\<rparr>
      in m3\<lparr>tri_face_elements := replicate (2 * ntri_faces m3) NO_LABEL,
            quad_face_elements := replicate (2 * nquad_faces m3) NO_LABEL\<rparr>)"

lemma init_face_data_sweeps: "init_face_data E m0 = set_face_elements E (first_sweep E m0)"
  by (simp add: init_face_data_def first_sweep_def Let_def)

lemma first_sweep_props:
  assumes n: "nelems m0 = elem_total m0"
    and bound: "elem_total m0 * max_faces E < NO_LABEL"
  shows "faces_inv E (first_sweep E m0)"
    and "topo (first_sweep E m0) = topo m0"
    and "\<And>a b. fslot E (first_sweep E m0) a b \<Longrightarrow>
           face_lbl E (first_sweep E m0) a b \<noteq> NO_LABEL"
    and "pass2_inv E (first_sweep E m0) 0 0 (first_sweep E m0)"
    and "nfaces (first_sweep E m0) =
           ntri_faces (first_sweep E m0) + nquad_faces (first_sweep E m0)"
proof -
  define m1 where "m1 = m0\<lparr>tet_faces := replicate (TET_FACES E * ntets m0) NO_LABEL,
                  hex_faces := replicate (HEX_FACES E * nhex m0) NO_LABEL,
                  wedge_faces := replicate (WEDGE_FACES E * nwedge m0) NO_LABEL,
                  pyrmd_faces := replicate (PYRMD_FACES E * npyrmd m0) NO_LABEL,
                  ntri_faces := 0, nquad_faces := 0, nfaces := 0\<rparr>"
  define m2 where "m2 = number_faces E m1"
  define fs where "fs = first_sweep E m0"
  have fs: "fs = m2\<lparr>nfaces := ntri_faces m2 + nquad_faces m2,
      tri_face_elements := replicate (2 * ntri_faces m2) NO_LABEL,
      quad_face_elements := replicate (2 * nquad_faces m2) NO_LABEL\<rparr>"
    by (simp add: fs_def first_sweep_def Let_def m1_def m2_def)
  have t1: "topo m1 = topo m0" by (simp add: m1_def topo_def)
  have inv1: "faces_inv E m1"
    by (rule replicate_faces_inv) (simp_all add: m1_def)
  have n1: "nelems m1 = elem_total m1" using n by (simp add: m1_def elem_total_def)
  have b1: "elem_total m1 * max_faces E < NO_LABEL"
    using bound by (simp add: m1_def elem_total_def)
  have lu: "labelled_upto E m1 m2 (nelems m1) 0"
    unfolding m2_def using inv1 n1 b1 by (rule number_faces_labelled)
  have inv2: "faces_inv E m2" and t2: "topo m2 = topo m1"
    and lab2: "\<And>a b. fslot E m1 a b \<Longrightarrow> a < nelems m1 \<or> (a = nelems m1 \<and> b < 0) \<Longrightarrow>
        face_lbl E m2 a b \<noteq> NO_LABEL"
    using lu unfolding labelled_upto_def by blast+
  have tf: "topo fs = topo m2" by (simp add: fs topo_def)
  have af: "faces_arr fs = faces_arr m2"
    by (simp add: fs faces_arr_def fun_eq_iff split: shape.splits)
  have cf: "face_cnt fs = face_cnt m2"
    by (simp add: fs face_cnt_def fun_eq_iff split: arity.splits)
  show inv: "faces_inv E (first_sweep E m0)"
    using faces_inv_cong[OF tf af cf, of E] inv2 by (simp add: fs_def)
  show "topo (first_sweep E m0) = topo m0"
    using tf t2 t1 by (simp add: fs_def)
  show lab: "face_lbl E (first_sweep E m0) a b \<noteq> NO_LABEL"
    if ab: "fslot E (first_sweep E m0) a b" for a b
  proof -
    have s1: "fslot E m1 a b"
      using ab fslot_topo[OF tf, of E] fslot_topo[OF t2, of E] by (simp add: fs_def)
    have "a < nelems m1"
      using fslot_elem[OF s1] n1 by (simp add: elem_total_def)
    then have "face_lbl E m2 a b \<noteq> NO_LABEL" using lab2[OF s1] by simp
    then show ?thesis
      using face_lbl_arr[OF tf af, of E] by (simp add: fs_def)
  qed
  show "nfaces (first_sweep E m0) =
      ntri_faces (first_sweep E m0) + nquad_faces (first_sweep E m0)"
    using fs by (simp add: fs_def)
  have arr: "elems_arr fs c = replicate (2 * face_cnt fs c) NO_LABEL" for c
    by (cases c) (simp_all add: fs elems_arr_def face_cnt_def)
  have "pass2_inv E fs 0 0 fs"
  proof (rule pass2_invI)
    show "topo fs = topo fs" "face_cnt fs = face_cnt fs" "nfaces fs = nfaces fs" by simp_all
    show "faces_wf E fs" using inv by (simp add: faces_inv_def fs_def)
    show "\<And>c. length (elems_arr fs c) = 2 * face_cnt fs c" by (simp add: arr)
    show "\<And>a b. fslot E fs a b \<Longrightarrow> face_lbl E fs a b =
        (if face_cls E fs (a, b) = Quad \<and> processed 0 0 (a, b)
         then face_lbl E fs a b + ntri_faces fs else face_lbl E fs a b)"
      by (simp add: processed_def)
    show "\<And>c k. k < face_cnt fs c \<Longrightarrow>
        enc (elems_arr fs c ! (2 * k)) (elems_arr fs c ! (2 * k + 1)) (holders E fs c k 0 0)"
      by (simp add: arr enc_def holders_def processed_def)
  qed
  then show "pass2_inv E (first_sweep E m0) 0 0 (first_sweep E m0)"
    by (simp add: fs_def)
qed

section \<open>What the edge numbering and the vertex adjacency leave unchanged\<close>

lemma fold_preserves:
  assumes "\<And>x s. g (f x s) = g s"
  shows "g (fold f xs s) = g s"
  using assms by (induction xs arbitrary: s) simp_all

lemma case_fold_preserves:
  assumes "\<And>a x s. g (f a x s) = g s"
  shows "g (case p of (a, n) \<Rightarrow> fold (f a) [0..<n] s) = g s"
  by (cases p) (simp add: fold_preserves[where g = g] assms)

definition face_view ::
  "MeshConnectivity3D \<Rightarrow> ((nat \<times> nat \<times> nat \<times> nat \<times> nat \<times> nat) \<times>
     (nat list \<times> nat list \<times> nat list \<times> nat list) \<times> (nat list \<times> nat list)) \<times>
     (nat list \<times> nat list \<times> nat list \<times> nat list) \<times> (nat \<times> nat \<times> nat) \<times> (nat list \<times> nat list)" where
  "face_view m = (topo m, (tet_faces m, hex_faces m, wedge_faces m, pyrmd_faces m),
                  (ntri_faces m, nquad_faces m, nfaces m),
                  (tri_face_elements m, quad_face_elements m))"

lemma face_view_fields:
  assumes "face_view m = face_view m'"
  shows "topo m = topo m'" "faces_arr m = faces_arr m'" "face_cnt m = face_cnt m'"
    "nfaces m = nfaces m'" "elems_arr m = elems_arr m'"
    "ntri_faces m = ntri_faces m'" "nquad_faces m = nquad_faces m'"
    "tri_face_elements m = tri_face_elements m'" "quad_face_elements m = quad_face_elements m'"
  using assms
  by (simp_all add: face_view_def faces_arr_def face_cnt_def elems_arr_def fun_eq_iff
      split: shape.splits arity.splits)

lemma edges_set_view: "face_view (edges_set p i v m) = face_view m"
  by (simp add: edges_set_def face_view_def topo_def split: ptr.splits shape.splits)

lemma label_adj_edges_view: "face_view (label_adj_edges E v0 edge_num adj_elem m) = face_view m"
proof -
  obtain p n where g: "get_element_edges E m adj_elem NULL = (p, n)"
    by (cases "get_element_edges E m adj_elem NULL")
  show ?thesis
    unfolding label_adj_edges_def g prod.case
    by (rule fold_preserves[where g = face_view]) (simp add: edges_set_view)
qed

lemma number_edge_view: "face_view (number_edge E elem elem_edges e0 m) = face_view m"
proof (cases "edges_at m elem_edges e0 = NO_LABEL")
  case False
  then show ?thesis by (simp add: number_edge_def)
next
  case True
  let ?m2 = "edges_set elem_edges e0 (nedges m) (m\<lparr>nedges := nedges m + 1\<rparr>)"
  have v2: "face_view ?m2 = face_view m"
    by (simp add: edges_set_view) (simp add: face_view_def topo_def)
  have "face_view (number_edge E elem elem_edges e0 m) = face_view ?m2"
    unfolding number_edge_def Let_def
    by (simp only: True if_True refl)
      (rule case_fold_preserves[where g = face_view], simp add: label_adj_edges_view)
  then show ?thesis using v2 by simp
qed

lemma init_edge_data_view:
  "face_view (init_edge_data E m) = face_view m"
proof -
  let ?m1 = "m\<lparr>nedges := 0,
                  tet_edges := replicate (TET_EDGES E * ntets m) NO_LABEL,
                  hex_edges := replicate (HEX_EDGES E * nhex m) NO_LABEL,
                  wedge_edges := replicate (WEDGE_EDGES E * nwedge m) NO_LABEL,
                  pyrmd_edges := replicate (PYRMD_EDGES E * npyrmd m) NO_LABEL\<rparr>"
  have v1: "face_view ?m1 = face_view m"
    by (simp add: face_view_def topo_def)
  have inner: "face_view (case get_element_edges E m' elem NULL of (elem_edges, ne) \<Rightarrow>
      fold (number_edge E elem elem_edges) [0..<ne] m') = face_view m'" for elem m'
  proof -
    obtain p n where g: "get_element_edges E m' elem NULL = (p, n)"
      by (cases "get_element_edges E m' elem NULL")
    show ?thesis
      unfolding g prod.case
      by (rule fold_preserves[where g = face_view]) (rule number_edge_view)
  qed
  have "face_view (init_edge_data E m) = face_view ?m1"
    unfolding init_edge_data_def Let_def
    by (rule fold_preserves[where g = face_view]) (rule inner)
  then show ?thesis using v1 by simp
qed

definition counts ::
  "MeshConnectivity3D \<Rightarrow> (nat \<times> nat \<times> nat \<times> nat \<times> nat \<times> nat) \<times>
     (nat list \<times> nat list \<times> nat list \<times> nat list)" where
  "counts m = ((nverts m, ntets m, nhex m, nwedge m, npyrmd m, nelems m),
               (tet_verts m, hex_verts m, wedge_verts m, pyrmd_verts m))"

lemma counts_fields:
  assumes "counts m = counts m'"
  shows "nverts m = nverts m'" "ntets m = ntets m'" "nhex m = nhex m'" "nwedge m = nwedge m'"
    "npyrmd m = npyrmd m'" "nelems m = nelems m'"
    "tet_verts m = tet_verts m'" "hex_verts m = hex_verts m'"
    "wedge_verts m = wedge_verts m'" "pyrmd_verts m = pyrmd_verts m'"
    "elem_total m = elem_total m'"
  using assms by (simp_all add: counts_def elem_total_def)

lemma topo_counts: "topo m = topo m' \<Longrightarrow> counts m = counts m'"
  by (simp add: topo_def counts_def)

lemma count_vert_elements_counts: "counts (count_vert_elements E m) = counts m"
  unfolding count_vert_elements_def
  by (rule fold_preserves[where g = counts])
    (rule case_fold_preserves[where g = counts], simp add: counts_def)

lemma accumulate_vert_ptr_counts: "counts (accumulate_vert_ptr m) = counts m"
  unfolding accumulate_vert_ptr_def
  by (rule fold_preserves[where g = counts]) (simp add: counts_def)

lemma scatter_vert_elements_counts: "counts (scatter_vert_elements E m) = counts m"
  unfolding scatter_vert_elements_def
  by (rule fold_preserves[where g = counts])
    (rule case_fold_preserves[where g = counts], simp add: counts_def)

lemma shift_vert_ptr_counts: "counts (shift_vert_ptr m) = counts m"
  unfolding shift_vert_ptr_def
  by (rule fold_preserves[where g = counts]) (simp add: counts_def)

lemma init_vert_element_data_counts: "counts (init_vert_element_data E m) = counts m"
proof -
  have a: "counts (m'\<lparr>vert_element_ptr := x\<rparr>) = counts m'"
    "counts (m'\<lparr>vert_elements := y\<rparr>) = counts m'" for m' x y
    by (simp_all add: counts_def)
  show ?thesis
    unfolding init_vert_element_data_def Let_def
    by (simp only: a count_vert_elements_counts accumulate_vert_ptr_counts
        scatter_vert_elements_counts shift_vert_ptr_counts)
qed

lemma mesh_connectivity_faces:
  assumes "mesh_connectivity E nv nt tets nh hex nw wedge np pyrmd = Some m"
  obtains m0 where "face_view m = face_view (init_face_data E m0)"
    and "nelems m0 = elem_total m0" and "elem_total m0 = nt + nh + nw + np"
proof -
  let ?mi = "\<lparr>nverts = nv, ntets = nt, nhex = nh, nwedge = nw, npyrmd = np,
           nelems = nt + nh + nw + np,
           ntri_faces = 0, nquad_faces = 0, nfaces = 0, nedges = 0,
           tet_verts = take (TET_VERTS E * nt) tets,
           hex_verts = take (HEX_VERTS E * nh) hex,
           wedge_verts = take (WEDGE_VERTS E * nw) wedge,
           pyrmd_verts = take (PYRMD_VERTS E * np) pyrmd,
           vert_element_ptr = [], vert_elements = [],
           tet_faces = [], hex_faces = [], wedge_faces = [], pyrmd_faces = [],
           tri_face_elements = [], quad_face_elements = [],
           tet_edges = [], hex_edges = [], wedge_edges = [], pyrmd_edges = []\<rparr>"
  let ?m0 = "init_vert_element_data E ?mi"
  have m: "m = init_edge_data E (init_face_data E ?m0)"
    using assms by (simp add: mesh_connectivity_def split: if_splits)
  have c: "counts ?m0 = counts ?mi" by (rule init_vert_element_data_counts)
  have "nelems ?m0 = nt + nh + nw + np" "elem_total ?m0 = nt + nh + nw + np"
    using counts_fields[OF c] by (simp_all add: elem_total_def)
  moreover have "face_view m = face_view (init_face_data E ?m0)"
    unfolding m by (rule init_edge_data_view)
  ultimately show ?thesis
    using that[of ?m0] by simp
qed

definition face_numbering ::
  "ElementTypes \<Rightarrow> MeshConnectivity3D \<Rightarrow> MeshConnectivity3D \<Rightarrow> bool" where
  "face_numbering E m fs =
     (faces_inv E fs \<and> topo fs = topo m \<and> face_cnt fs = face_cnt m \<and>
      nfaces m = ntri_faces m + nquad_faces m \<and>
      (\<forall>a b. fslot E m a b \<longrightarrow> face_lbl E fs a b \<noteq> NO_LABEL) \<and>
      (\<forall>a b. fslot E m a b \<longrightarrow>
         face_lbl E m a b =
           (if face_cls E m (a, b) = Quad then face_lbl E fs a b + ntri_faces m
            else face_lbl E fs a b)) \<and>
      (\<forall>c k. k < face_cnt m c \<longrightarrow>
         enc (elems_arr m c ! (2 * k)) (elems_arr m c ! (2 * k + 1))
           {a. \<exists>b. fslot E m a b \<and> face_cls E m (a, b) = c \<and> face_lbl E fs a b = k}))"

lemma face_numberingD:
  assumes "face_numbering E m fs"
  shows "faces_inv E fs" "topo fs = topo m" "face_cnt fs = face_cnt m"
    "nfaces m = ntri_faces m + nquad_faces m"
    "\<And>a b. fslot E m a b \<Longrightarrow> face_lbl E fs a b \<noteq> NO_LABEL"
    "\<And>a b. fslot E m a b \<Longrightarrow>
       face_lbl E m a b =
         (if face_cls E m (a, b) = Quad then face_lbl E fs a b + ntri_faces m
          else face_lbl E fs a b)"
    "\<And>c k. k < face_cnt m c \<Longrightarrow>
       enc (elems_arr m c ! (2 * k)) (elems_arr m c ! (2 * k + 1))
         {a. \<exists>b. fslot E m a b \<and> face_cls E m (a, b) = c \<and> face_lbl E fs a b = k}"
  using assms unfolding face_numbering_def by blast+

lemma init_face_data_numbering:
  assumes n: "nelems m0 = elem_total m0"
    and bound: "elem_total m0 * max_faces E < NO_LABEL"
  shows "face_numbering E (init_face_data E m0) (first_sweep E m0)"
proof -
  define fs where "fs = first_sweep E m0"
  define mF where "mF = init_face_data E m0"
  note fp = first_sweep_props[OF n bound, folded fs_def]
  have c: "counts fs = counts m0" using fp(2) by (rule topo_counts)
  have nfs: "nelems fs = elem_total fs"
    using counts_fields[OF c] n by simp
  have bfs: "elem_total fs * max_faces E < NO_LABEL"
    using counts_fields(11)[OF c] bound by simp
  have p: "pass2_inv E fs (nelems fs) 0 mF"
    unfolding mF_def init_face_data_sweeps fs_def[symmetric]
    using fp(1) fp(3) fp(4) bfs by (rule set_face_elements_inv)
  note d = pass2_invD[OF p]
  have sl: "fslot E mF = fslot E fs" by (rule fslot_topo[OF d(1)])
  have cl: "face_cls E mF = face_cls E fs" by (rule topo_slots[OF d(1)])
  have pr: "processed (nelems fs) 0 (a, b)" if "fslot E fs a b" for a b
    using fslot_elem[OF that] nfs by (simp add: processed_def elem_total_def)
  have h: "holders E fs c k (nelems fs) 0 =
      {a. \<exists>b. fslot E mF a b \<and> face_cls E mF (a, b) = c \<and> face_lbl E fs a b = k}" for c k
    unfolding holders_def sl cl using pr by blast
  have nt: "ntri_faces mF = ntri_faces fs" "nquad_faces mF = nquad_faces fs"
    using d(2) by (simp_all add: face_cnt_def fun_eq_iff split: arity.splits)
  have "face_numbering E mF fs"
    unfolding face_numbering_def
  proof (intro conjI allI impI)
    show "faces_inv E fs" by (rule fp(1))
    show "topo fs = topo mF" using d(1) by simp
    show "face_cnt fs = face_cnt mF" using d(2) by simp
    show "nfaces mF = ntri_faces mF + nquad_faces mF"
      using d(3) fp(5) nt by simp
  next
    fix a b assume "fslot E mF a b"
    then show "face_lbl E fs a b \<noteq> NO_LABEL" using fp(3) sl by simp
  next
    fix a b assume ab: "fslot E mF a b"
    then have ab': "fslot E fs a b" using sl by simp
    show "face_lbl E mF a b =
        (if face_cls E mF (a, b) = Quad then face_lbl E fs a b + ntri_faces mF
         else face_lbl E fs a b)"
      using d(6)[OF ab'] pr[OF ab'] by (simp add: cl nt)
  next
    fix c k assume "k < face_cnt mF c"
    then have "k < face_cnt fs c" using d(2) by simp
    from d(7)[OF this]
    show "enc (elems_arr mF c ! (2 * k)) (elems_arr mF c ! (2 * k + 1))
        {a. \<exists>b. fslot E mF a b \<and> face_cls E mF (a, b) = c \<and> face_lbl E fs a b = k}"
      by (simp add: h)
  qed
  then show ?thesis by (simp add: mF_def fs_def)
qed

lemma face_numbering_view:
  assumes v: "face_view m = face_view m'" and f: "face_numbering E m' fs"
  shows "face_numbering E m fs"
proof -
  note vf = face_view_fields[OF v]
  have sl: "fslot E m = fslot E m'" by (rule fslot_topo[OF vf(1)])
  have cl: "face_cls E m = face_cls E m'" by (rule topo_slots[OF vf(1)])
  have lb: "face_lbl E m = face_lbl E m'" by (rule face_lbl_arr[OF vf(1) vf(2)])
  show ?thesis
    using f unfolding face_numbering_def sl cl lb vf(1) vf(3) vf(4) vf(5) vf(6) vf(7) .
qed

lemma mesh_connectivity_numbering:
  assumes mc: "mesh_connectivity E nv nt tets nh hex nw wedge np pyrmd = Some m"
    and bound: "(nt + nh + nw + np) * max_faces E < NO_LABEL"
  obtains fs where "face_numbering E m fs" and "nelems m = elem_total m"
    and "elem_total m = nt + nh + nw + np"
proof -
  obtain m0 where v: "face_view m = face_view (init_face_data E m0)"
    and n: "nelems m0 = elem_total m0" and t: "elem_total m0 = nt + nh + nw + np"
    using mc by (rule mesh_connectivity_faces)
  have b0: "elem_total m0 * max_faces E < NO_LABEL" using bound by (simp add: t)
  have "face_numbering E (init_face_data E m0) (first_sweep E m0)"
    using n b0 by (rule init_face_data_numbering)
  then have fn: "face_numbering E m (first_sweep E m0)"
    using v by (rule face_numbering_view[rotated])
  have "topo m = topo m0"
    using face_numberingD(2)[OF fn] first_sweep_props(2)[OF n b0] by simp
  then have c: "counts m = counts m0" by (rule topo_counts)
  have "nelems m = elem_total m" "elem_total m = nt + nh + nw + np"
    using counts_fields[OF c] n t by simp_all
  then show ?thesis using fn that by blast
qed

lemma face_cls_Tri:
  "(face_cls E m (e, f) = Tri) = (snd (get_element_face_verts E m e f) = 3)"
  by (simp add: face_cls_def get_element_global_face_verts_def global_face_order_def
      split: prod.splits)

lemma face_numbering_label:
  assumes fn: "face_numbering E m fs" and s: "fslot E m e f"
  shows "face_lbl E fs e f < face_cnt m (face_cls E m (e, f))"
proof -
  note d = face_numberingD[OF fn]
  have li: "linv (fslots E fs) fst (face_cls E fs) (face_tup E fs) (slot_lbl E fs) (face_cnt fs)"
    using d(1) by (simp add: faces_inv_def)
  have "(e, f) \<in> fslots E fs"
    using s fslot_topo[OF d(2), of E] by (simp add: fslots_def)
  from linvD(1)[OF li this] d(5)[OF s]
  show ?thesis
    by (simp add: slot_lbl_def d(3) topo_slots(2)[OF d(2)])
qed

text \<open>
  C6. After the construction of the connectivity the global face numbers are
  partitioned by arity: \<open>nfaces = ntri_faces + nquad_faces\<close>, the number stored for a
  local face with three vertices is below \<open>ntri_faces\<close>, and the number stored for a
  local face with four vertices lies in \<open>[ntri_faces, ntri_faces + nquad_faces)\<close>. The
  number of local faces must stay below the sentinel, so that no face number is taken
  for an unlabelled face.
\<close>

theorem face_numbering_partitioned:
  assumes "mesh_connectivity E nv nt tets nh hex nw wedge np pyrmd = Some m"
    and "(nt + nh + nw + np) * max_faces E < NO_LABEL"
    and "get_element_faces E m e = (faces, nf)" and "f < nf"
  shows "nfaces m = ntri_faces m + nquad_faces m
       \<and> (snd (get_element_face_verts E m e f) = 3 \<longrightarrow> faces_at m faces f < ntri_faces m)
       \<and> (snd (get_element_face_verts E m e f) \<noteq> 3 \<longrightarrow>
            ntri_faces m \<le> faces_at m faces f \<and>
            faces_at m faces f < ntri_faces m + nquad_faces m)"
proof -
  obtain fs where fn: "face_numbering E m fs"
    using assms(1,2) by (rule mesh_connectivity_numbering)
  note d = face_numberingD[OF fn]
  have s: "fslot E m e f" using assms(3,4) by (simp add: fslot_def)
  have l: "faces_at m faces f = face_lbl E m e f"
    using assms(3) by (simp add: face_lbl_def)
  have lt: "face_lbl E fs e f < face_cnt m (face_cls E m (e, f))"
    using fn s by (rule face_numbering_label)
  show ?thesis
  proof (cases "face_cls E m (e, f)")
    case Tri
    then have "snd (get_element_face_verts E m e f) = 3" by (simp add: face_cls_Tri)
    moreover have "face_lbl E m e f < ntri_faces m"
      using d(6)[OF s] lt Tri by (simp add: face_cnt_def)
    ultimately show ?thesis using d(4) l by simp
  next
    case Quad
    then have "snd (get_element_face_verts E m e f) \<noteq> 3"
      using face_cls_Tri[of E m e f] by simp
    moreover have "ntri_faces m \<le> face_lbl E m e f \<and>
        face_lbl E m e f < ntri_faces m + nquad_faces m"
      using d(6)[OF s] lt Quad by (simp add: face_cnt_def)
    ultimately show ?thesis using d(4) l by simp
  qed
qed

text \<open>
  Two different local faces that carry the same global face number belong to different
  elements and have the same canonical tuple: the first sweep gives two local faces one
  number only after \<open>global_face_equality\<close> accepted their tuples.
\<close>

lemma same_number_same_global_verts:
  assumes "mesh_connectivity E nv nt tets nh hex nw wedge np pyrmd = Some m"
    and "(nt + nh + nw + np) * max_faces E < NO_LABEL"
    and "get_element_faces E m ea = (pa, na)" and "fa < na"
    and "get_element_faces E m eb = (pb, nb)" and "fb < nb"
    and "(ea, fa) \<noteq> (eb, fb)"
    and "faces_at m pa fa = faces_at m pb fb"
  shows "get_element_global_face_verts E m ea fa = get_element_global_face_verts E m eb fb
       \<and> ea \<noteq> eb"
proof -
  obtain fs where fn: "face_numbering E m fs"
    using assms(1,2) by (rule mesh_connectivity_numbering)
  note d = face_numberingD[OF fn]
  have sa: "fslot E m ea fa" and sb: "fslot E m eb fb"
    using assms(3-6) by (simp_all add: fslot_def)
  have eq: "face_lbl E m ea fa = face_lbl E m eb fb"
    using assms(3,5,8) by (simp add: face_lbl_def)
  have la: "face_lbl E fs ea fa < face_cnt m (face_cls E m (ea, fa))"
    using fn sa by (rule face_numbering_label)
  have lb: "face_lbl E fs eb fb < face_cnt m (face_cls E m (eb, fb))"
    using fn sb by (rule face_numbering_label)
  have cls: "face_cls E m (ea, fa) = face_cls E m (eb, fb)"
  proof (rule ccontr)
    assume ne: "face_cls E m (ea, fa) \<noteq> face_cls E m (eb, fb)"
    show False
    proof (cases "face_cls E m (ea, fa)")
      case Tri
      then have "face_cls E m (eb, fb) = Quad" using ne by (cases "face_cls E m (eb, fb)") simp_all
      then show False
        using d(6)[OF sa] d(6)[OF sb] eq la Tri by (simp add: face_cnt_def)
    next
      case Quad
      then have "face_cls E m (eb, fb) = Tri" using ne by (cases "face_cls E m (eb, fb)") simp_all
      then show False
        using d(6)[OF sa] d(6)[OF sb] eq lb Quad by (simp add: face_cnt_def)
    qed
  qed
  have leq: "face_lbl E fs ea fa = face_lbl E fs eb fb"
    using d(6)[OF sa] d(6)[OF sb] eq cls by (simp split: if_splits)
  have li: "linv (fslots E fs) fst (face_cls E fs) (face_tup E fs) (slot_lbl E fs) (face_cnt fs)"
    using d(1) by (simp add: faces_inv_def)
  have ia: "(ea, fa) \<in> fslots E fs" and ib: "(eb, fb) \<in> fslots E fs"
    using sa sb fslot_topo[OF d(2), of E] by (simp_all add: fslots_def)
  have f1: "slot_lbl E fs (ea, fa) \<noteq> NO_LABEL" using d(5)[OF sa] by (simp add: slot_lbl_def)
  have f2: "slot_lbl E fs (ea, fa) = slot_lbl E fs (eb, fb)" using leq by (simp add: slot_lbl_def)
  have f3: "face_cls E fs (ea, fa) = face_cls E fs (eb, fb)"
    using cls by (simp add: topo_slots(2)[OF d(2)])
  have "fst (ea, fa) \<noteq> fst (eb, fb) \<and> face_tup E fs (ea, fa) = face_tup E fs (eb, fb)"
    by (rule linvD(2)[OF li ia ib f1 f2 f3 assms(7)])
  then show ?thesis
    by (simp add: topo_slots(3)[OF d(2)] face_tup_def)
qed

definition face_elements :: "ElementTypes \<Rightarrow> MeshConnectivity3D \<Rightarrow> nat \<Rightarrow> nat list" where
  "face_elements E m face =
     filter (\<lambda>e. \<exists>f\<in>set [0..<snd (get_element_faces E m e)].
                faces_at m (fst (get_element_faces E m e)) f = face) [0..<nelems m]"

lemma face_elements_set:
  assumes "nelems m = elem_total m"
  shows "set (face_elements E m face) = {a. \<exists>b. fslot E m a b \<and> face_lbl E m a b = face}"
proof -
  have "\<And>a b. fslot E m a b \<Longrightarrow> a < nelems m"
    using fslot_elem[of E m] assms by (simp add: elem_total_def)
  then show ?thesis
    by (auto simp: face_elements_def fslot_def face_lbl_def)
qed

lemma face_numbering_slot:
  assumes fn: "face_numbering E m fs" and k: "k < face_cnt m c"
  shows "\<exists>a b. fslot E m a b \<and> face_cls E m (a, b) = c \<and> face_lbl E fs a b = k"
proof -
  note d = face_numberingD[OF fn]
  have li: "linv (fslots E fs) fst (face_cls E fs) (face_tup E fs) (slot_lbl E fs) (face_cnt fs)"
    using d(1) by (simp add: faces_inv_def)
  have "k < face_cnt fs c" using k by (simp add: d(3))
  from linvD(4)[OF li this]
  obtain t where t: "t \<in> fslots E fs" "face_cls E fs t = c" "slot_lbl E fs t = k" by blast
  obtain a b where ab: "t = (a, b)" by (cases t)
  have "fslot E m a b" using t(1) ab fslot_topo[OF d(2), of E] by (simp add: fslots_def)
  moreover have "face_cls E m (a, b) = c" using t(2) ab by (simp add: topo_slots(2)[OF d(2)])
  moreover have "face_lbl E fs a b = k" using t(3) ab by (simp add: slot_lbl_def)
  ultimately show ?thesis by blast
qed

text \<open>
  C2. For a global face number below \<open>nfaces\<close>, \<open>get_face_elements\<close> returns true exactly
  when the second stored element is the sentinel. The elements that carry the face
  among their local faces are then the first stored element alone; otherwise they are
  the two stored elements, which are different and both below \<open>nelems\<close>.
\<close>

theorem get_face_elements_boundary_flag:
  assumes "mesh_connectivity E nv nt tets nh hex nw wedge np pyrmd = Some m"
    and "(nt + nh + nw + np) * max_faces E < NO_LABEL"
    and "face < nfaces m"
    and "get_face_elements m face = (e1, e2, b)"
  shows "b = (e2 = NO_LABEL) \<and> e1 < nelems m \<and>
         (if b then set (face_elements E m face) = {e1}
          else set (face_elements E m face) = {e1, e2} \<and> e1 \<noteq> e2 \<and> e2 < nelems m)"
proof -
  obtain fs where fn: "face_numbering E m fs" and ne: "nelems m = elem_total m"
    using assms(1,2) by (rule mesh_connectivity_numbering)
  note d = face_numberingD[OF fn]
  define c where "c = (if face < ntri_faces m then Tri else Quad)"
  define k where "k = (if face < ntri_faces m then face else face - ntri_faces m)"
  define A where "A = {a. \<exists>b. fslot E m a b \<and> face_cls E m (a, b) = c \<and> face_lbl E fs a b = k}"
  have kc: "k < face_cnt m c"
    using assms(3) d(4) by (auto simp: k_def c_def face_cnt_def)
  have g: "e1 = elems_arr m c ! (2 * k)" "e2 = elems_arr m c ! (2 * k + 1)"
      "b = (e2 = NO_LABEL)"
    using assms(4)
    by (auto simp: get_face_elements_def c_def k_def elems_arr_def Let_def split: if_splits)
  have slot: "(face_lbl E m a f = face) = (face_cls E m (a, f) = c \<and> face_lbl E fs a f = k)"
    if s: "fslot E m a f" for a f
  proof -
    have lt: "face_lbl E fs a f < face_cnt m (face_cls E m (a, f))"
      using fn s by (rule face_numbering_label)
    show ?thesis
    proof (cases "face_cls E m (a, f)")
      case Tri
      then show ?thesis
        using d(6)[OF s] lt by (auto simp: c_def k_def face_cnt_def)
    next
      case Quad
      then show ?thesis
        using d(6)[OF s] lt by (auto simp: c_def k_def face_cnt_def)
    qed
  qed
  have S: "set (face_elements E m face) = A"
    unfolding face_elements_set[OF ne] A_def using slot by blast
  have en: "enc e1 e2 A" using d(7)[OF kc] by (simp add: g A_def)
  have nonempty: "A \<noteq> {}"
    using face_numbering_slot[OF fn kc] by (auto simp: A_def)
  have sub: "\<And>a. a \<in> A \<Longrightarrow> a < nelems m"
    using fslot_elem[of E m] ne by (auto simp: A_def elem_total_def)
  from en nonempty consider
      "A = {e1}" "e1 \<noteq> NO_LABEL" "e2 = NO_LABEL"
    | "A = {e1, e2}" "e1 \<noteq> e2" "e1 \<noteq> NO_LABEL" "e2 \<noteq> NO_LABEL"
    unfolding enc_def by blast
  then show ?thesis
  proof cases
    case 1
    have "e1 < nelems m" using sub[of e1] 1(1) by simp
    then show ?thesis using 1 g(3) S by simp
  next
    case 2
    have "e1 < nelems m" "e2 < nelems m" using sub[of e1] sub[of e2] 2(1) by simp_all
    then show ?thesis using 2 g(3) S by simp
  qed
qed


section \<open>Sample meshes\<close>

text \<open>
  Two tetrahedra that share the face with the vertices 1, 2, 3, and a single pyramid.
  The records are the results of the constructor.
\<close>

definition two_tets :: MeshConnectivity3D where
  "two_tets =
     \<lparr>nverts = 5, ntets = 2, nhex = 0, nwedge = 0, npyrmd = 0, nelems = 2,
      ntri_faces = 7, nquad_faces = 0, nfaces = 7, nedges = 9,
      tet_verts = [0, 1, 2, 3, 1, 2, 3, 4], hex_verts = [], wedge_verts = [],
      pyrmd_verts = [], vert_element_ptr = [0, 1, 3, 5, 7, 8],
      vert_elements = [0, 0, 1, 0, 1, 0, 1, 1],
      tet_faces = [0, 1, 2, 3, 4, 5, 6, 0], hex_faces = [], wedge_faces = [],
      pyrmd_faces = [],
      tri_face_elements =
        [0, 1, 0, NO_LABEL, 0, NO_LABEL, 0, NO_LABEL, 1, NO_LABEL, 1, NO_LABEL, 1, NO_LABEL],
      quad_face_elements = [],
      tet_edges = [0, 1, 2, 3, 4, 5, 1, 5, 4, 6, 7, 8], hex_edges = [],
      wedge_edges = [], pyrmd_edges = []\<rparr>"

definition one_pyramid :: MeshConnectivity3D where
  "one_pyramid =
     \<lparr>nverts = 5, ntets = 0, nhex = 0, nwedge = 0, npyrmd = 1, nelems = 1,
      ntri_faces = 4, nquad_faces = 1, nfaces = 5, nedges = 8,
      tet_verts = [], hex_verts = [], wedge_verts = [],
      pyrmd_verts = [0, 1, 2, 3, 4], vert_element_ptr = [0, 1, 2, 3, 4, 5],
      vert_elements = [0, 0, 0, 0, 0], tet_faces = [], hex_faces = [],
      wedge_faces = [], pyrmd_faces = [0, 1, 2, 3, 4],
      tri_face_elements = [0, NO_LABEL, 0, NO_LABEL, 0, NO_LABEL, 0, NO_LABEL],
      quad_face_elements = [0, NO_LABEL], tet_edges = [], hex_edges = [],
      wedge_edges = [], pyrmd_edges = [0, 1, 2, 3, 4, 5, 6, 7]\<rparr>"

lemma two_tets_mesh:
  "mesh_connectivity ET_tables 5 2 [0, 1, 2, 3, 1, 2, 3, 4] 0 [] 0 [] 0 [] = Some two_tets"
  by code_simp

lemma one_pyramid_mesh:
  "mesh_connectivity ET_tables 5 0 [] 0 [] 0 [] 1 [0, 1, 2, 3, 4] = Some one_pyramid"
  by code_simp

lemma sample_bounds:
  "(2 + 0 + 0 + 0) * max_faces ET_tables < NO_LABEL"
  "(0 + 0 + 0 + 1) * max_faces ET_tables < NO_LABEL"
  by code_simp+

theorem out_of_range_element_queries_witness:
  "nelems two_tets = ntets two_tets + nhex two_tets + nwedge two_tets + npyrmd two_tets
   \<and> nelems two_tets \<le> 2
   \<and> get_element_verts ET_tables two_tets 2 = (NULL, 0)
   \<and> get_element_faces ET_tables two_tets 2 = (NULL, 0)
   \<and> get_element_edges ET_tables two_tets 2 (Ptr Tet 6) = (Ptr Tet 6, 0)"
proof -
  have h1: "nelems two_tets = ntets two_tets + nhex two_tets + nwedge two_tets + npyrmd two_tets"
    by (simp add: two_tets_def)
  have h2: "nelems two_tets \<le> 2" by (simp add: two_tets_def)
  show ?thesis
    using h1 h2 out_of_range_element_queries[OF h1 h2, of ET_tables "Ptr Tet 6"] by simp
qed

theorem face_numbering_partitioned_witness:
  "mesh_connectivity ET_tables 5 0 [] 0 [] 0 [] 1 [0, 1, 2, 3, 4] = Some one_pyramid
   \<and> (0 + 0 + 0 + 1) * max_faces ET_tables < NO_LABEL
   \<and> get_element_faces ET_tables one_pyramid 0 = (Ptr Pyrmd 0, 5)
   \<and> (4::nat) < 5
   \<and> nfaces one_pyramid = ntri_faces one_pyramid + nquad_faces one_pyramid
   \<and> snd (get_element_face_verts ET_tables one_pyramid 0 4) = 4
   \<and> ntri_faces one_pyramid \<le> faces_at one_pyramid (Ptr Pyrmd 0) 4
   \<and> faces_at one_pyramid (Ptr Pyrmd 0) 4 < ntri_faces one_pyramid + nquad_faces one_pyramid"
proof -
  have h3: "get_element_faces ET_tables one_pyramid 0 = (Ptr Pyrmd 0, 5)" by code_simp
  have h4: "(4::nat) < 5" by simp
  have v: "snd (get_element_face_verts ET_tables one_pyramid 0 4) = 4" by code_simp
  show ?thesis
    using face_numbering_partitioned[OF one_pyramid_mesh sample_bounds(2) h3 h4]
      one_pyramid_mesh sample_bounds(2) h3 v
    by simp
qed

theorem get_face_elements_boundary_flag_witness:
  "mesh_connectivity ET_tables 5 2 [0, 1, 2, 3, 1, 2, 3, 4] 0 [] 0 [] 0 [] = Some two_tets
   \<and> (2 + 0 + 0 + 0) * max_faces ET_tables < NO_LABEL
   \<and> 0 < nfaces two_tets
   \<and> get_face_elements two_tets 0 = (0, 1, False)
   \<and> set (face_elements ET_tables two_tets 0) = {0, 1}
   \<and> 1 < nelems two_tets"
proof -
  have h3: "0 < nfaces two_tets" by (simp add: two_tets_def)
  have h4: "get_face_elements two_tets 0 = (0, 1, False)" by code_simp
  show ?thesis
    using get_face_elements_boundary_flag[OF two_tets_mesh sample_bounds(1) h3 h4]
      two_tets_mesh sample_bounds(1) h3 h4
    by simp
qed

section \<open>The canonical order of a face\<close>

text \<open>
  For a face with pairwise different vertices the canonical tuple does not depend on
  the vertex the element starts from nor on the direction it lists the face in: a
  triangle is sorted, a quadrilateral is invariant under rotation and reversal.
\<close>

lemma global_face_order_tri_sorted:
  assumes "distinct [a, b, c]"
  shows "global_face_order [a, b, c] 3 = (sort [a, b, c], 3)"
  using assms by (auto simp: global_face_order_def)

lemma global_face_order_quad_rotate:
  assumes "distinct [a, b, c, d]"
  shows "global_face_order [b, c, d, a] 4 = global_face_order [a, b, c, d] 4"
  using assms by (auto simp: global_face_order_def)

lemma global_face_order_quad_reverse:
  assumes "distinct [a, b, c, d]"
  shows "global_face_order [d, c, b, a] 4 = global_face_order [a, b, c, d] 4"
  using assms by (auto simp: global_face_order_def)

text \<open>
  Two elements that share a face list its vertices as the same ring, each from a
  starting vertex and in a direction of its own: \<open>same_face_ring s t\<close> holds when \<open>t\<close>
  is a rotation of \<open>s\<close> or a rotation of the reversed \<open>s\<close>.
\<close>

definition face_ring_rotations :: "nat list \<Rightarrow> nat list list" where
  "face_ring_rotations t = map (\<lambda>k. rotate k t) [0..<length t]"

definition same_face_ring :: "nat list \<Rightarrow> nat list \<Rightarrow> bool" where
  "same_face_ring s t =
     (t \<in> set (face_ring_rotations s) \<or> t \<in> set (face_ring_rotations (rev s)))"

lemma get_element_face_verts_shape:
  assumes "get_element_face_verts E m e f = (t, n)"
  shows "(\<exists>a b c. t = [a, b, c] \<and> n = 3) \<or> (\<exists>a b c d. t = [a, b, c, d] \<and> n = 4)
       \<or> (t = [] \<and> n = 0)"
  using assms by (auto simp: get_element_face_verts_def Let_def split: if_splits)

lemma face_ring_rotations_tri:
  "face_ring_rotations [a, b, c] = [[a, b, c], [b, c, a], [c, a, b]]"
  by (simp add: face_ring_rotations_def)

lemma face_ring_rotations_quad:
  "face_ring_rotations [a, b, c, d] = [[a, b, c, d], [b, c, d, a], [c, d, a, b], [d, a, b, c]]"
  by (simp add: face_ring_rotations_def)

lemma same_face_ring_tri:
  "same_face_ring [a, b, c] t =
     (t = [a, b, c] \<or> t = [b, c, a] \<or> t = [c, a, b] \<or>
      t = [c, b, a] \<or> t = [b, a, c] \<or> t = [a, c, b])"
  unfolding same_face_ring_def rev.simps append.simps face_ring_rotations_tri by auto

lemma same_face_ring_quad:
  "same_face_ring [a, b, c, d] t =
     (t = [a, b, c, d] \<or> t = [b, c, d, a] \<or> t = [c, d, a, b] \<or> t = [d, a, b, c] \<or>
      t = [d, c, b, a] \<or> t = [c, b, a, d] \<or> t = [b, a, d, c] \<or> t = [a, d, c, b])"
  unfolding same_face_ring_def rev.simps append.simps face_ring_rotations_quad by auto

lemma same_face_ring_Nil: "\<not> same_face_ring [] t"
  by (simp add: same_face_ring_def face_ring_rotations_def)

lemma global_face_order_tri_ring:
  assumes "distinct [a, b, c]" and "same_face_ring [a, b, c] t"
  shows "global_face_order t 3 = global_face_order [a, b, c] 3"
proof -
  have s: "global_face_order [x, y, z] 3 = (sort [x, y, z], 3)" if "distinct [x, y, z]" for x y z
    using that by (rule global_face_order_tri_sorted)
  from assms(2) consider "t = [a, b, c]" | "t = [b, c, a]" | "t = [c, a, b]"
    | "t = [c, b, a]" | "t = [b, a, c]" | "t = [a, c, b]"
    unfolding same_face_ring_tri by blast
  then show ?thesis
  proof cases
    case 1 then show ?thesis by simp
  next
    case 2 then show ?thesis using assms(1) by (auto simp: global_face_order_def)
  next
    case 3 then show ?thesis using assms(1) by (auto simp: global_face_order_def)
  next
    case 4 then show ?thesis using assms(1) by (auto simp: global_face_order_def)
  next
    case 5 then show ?thesis using assms(1) by (auto simp: global_face_order_def)
  next
    case 6 then show ?thesis using assms(1) by (auto simp: global_face_order_def)
  qed
qed

lemma global_face_order_quad_ring:
  assumes "distinct [a, b, c, d]" and "same_face_ring [a, b, c, d] t"
  shows "global_face_order t 4 = global_face_order [a, b, c, d] 4"
proof -
  have rot: "global_face_order [y, z, w, x] 4 = global_face_order [x, y, z, w] 4"
    if "distinct [x, y, z, w]" for x y z w
    using that by (rule global_face_order_quad_rotate)
  have rv: "global_face_order [w, z, y, x] 4 = global_face_order [x, y, z, w] 4"
    if "distinct [x, y, z, w]" for x y z w
    using that by (rule global_face_order_quad_reverse)
  have d1: "distinct [b, c, d, a]" and d2: "distinct [c, d, a, b]"
    and d3: "distinct [d, c, b, a]" and d4: "distinct [c, b, a, d]" and d5: "distinct [b, a, d, c]"
    using assms(1) by auto
  have r1: "global_face_order [b, c, d, a] 4 = global_face_order [a, b, c, d] 4"
    by (rule rot[OF assms(1)])
  have r2: "global_face_order [c, d, a, b] 4 = global_face_order [a, b, c, d] 4"
    using rot[OF d1] r1 by simp
  have r3: "global_face_order [d, a, b, c] 4 = global_face_order [a, b, c, d] 4"
    using rot[OF d2] r2 by simp
  have v0: "global_face_order [d, c, b, a] 4 = global_face_order [a, b, c, d] 4"
    by (rule rv[OF assms(1)])
  have v1: "global_face_order [c, b, a, d] 4 = global_face_order [a, b, c, d] 4"
    using rot[OF d3] v0 by simp
  have v2: "global_face_order [b, a, d, c] 4 = global_face_order [a, b, c, d] 4"
    using rot[OF d4] v1 by simp
  have v3: "global_face_order [a, d, c, b] 4 = global_face_order [a, b, c, d] 4"
    using rot[OF d5] v2 by simp
  from assms(2) consider "t = [a, b, c, d]" | "t = [b, c, d, a]" | "t = [c, d, a, b]"
    | "t = [d, a, b, c]" | "t = [d, c, b, a]" | "t = [c, b, a, d]" | "t = [b, a, d, c]"
    | "t = [a, d, c, b]"
    unfolding same_face_ring_quad by blast
  then show ?thesis
    using r1 r2 r3 v0 v1 v2 v3 by cases simp_all
qed

text \<open>
  C4. The tuple written by \<open>get_element_global_face_verts\<close> does not depend on the
  element that computes it: when two local faces have pairwise different vertices and
  the vertices \<open>get_element_face_verts\<close> lists for one are a rotation or a reflection
  of those it lists for the other, as it is for the two elements on either side of an
  interior face, the two calls write the same entries in the same positions and return
  the same count.
\<close>

theorem global_face_verts_independent_of_element:
  assumes "get_element_face_verts E m ea fa = (ta, na)"
    and "get_element_face_verts E m eb fb = (tb, nb)"
    and "distinct ta" and "same_face_ring ta tb"
  shows "get_element_global_face_verts E m ea fa = get_element_global_face_verts E m eb fb"
proof -
  have ga: "get_element_global_face_verts E m ea fa = global_face_order ta na"
    and gb: "get_element_global_face_verts E m eb fb = global_face_order tb nb"
    using assms(1,2) by (simp_all add: get_element_global_face_verts_def)
  from get_element_face_verts_shape[OF assms(1)]
  consider a b c where "ta = [a, b, c]" "na = 3"
    | a b c d where "ta = [a, b, c, d]" "na = 4"
    | "ta = []"
    by blast
  then show ?thesis
  proof cases
    case 1
    have len: "length tb = 3"
      using assms(4) unfolding 1 same_face_ring_tri by auto
    then have "nb = 3"
      using get_element_face_verts_shape[OF assms(2)] by auto
    then show ?thesis
      using global_face_order_tri_ring[of a b c tb] assms(3,4) 1 ga gb by simp
  next
    case 2
    have len: "length tb = 4"
      using assms(4) unfolding 2 same_face_ring_quad by auto
    then have "nb = 4"
      using get_element_face_verts_shape[OF assms(2)] by auto
    then show ?thesis
      using global_face_order_quad_ring[of a b c d tb] assms(3,4) 2 ga gb by simp
  next
    case 3
    then show ?thesis using assms(4) same_face_ring_Nil by simp
  qed
qed

theorem global_face_verts_independent_of_element_witness:
  "get_element_face_verts ET_tables two_tets 0 0 = ([1, 2, 3], 3)
   \<and> get_element_face_verts ET_tables two_tets 1 3 = ([1, 3, 2], 3)
   \<and> distinct [1::nat, 2, 3]
   \<and> same_face_ring [1, 2, 3] [1, 3, 2]
   \<and> get_element_global_face_verts ET_tables two_tets 0 0
      = get_element_global_face_verts ET_tables two_tets 1 3"
proof -
  have h1: "get_element_face_verts ET_tables two_tets 0 0 = ([1, 2, 3], 3)" by code_simp
  have h2: "get_element_face_verts ET_tables two_tets 1 3 = ([1, 3, 2], 3)" by code_simp
  have h3: "distinct [1::nat, 2, 3]" by simp
  have h4: "same_face_ring [1, 2, 3] [1, 3, 2]" by code_simp
  show ?thesis
    using global_face_verts_independent_of_element[OF h1 h2 h3 h4] h1 h2 h3 h4 by simp
qed

section \<open>The block matrix of an element mesh\<close>

text \<open>
  The first loop over the degrees of freedom of an element in \<open>create_block_matrix\<close>:
  \<open>reduce_dof M ds\<close> is the content of \<open>dof_reduced[0..n)\<close> for the degrees of freedom
  \<open>ds\<close> of the element. Every entry is divided by the block size; the inner \<open>while\<close>
  loop skips the entries that follow with the same quotient.
\<close>

function reduce_dof :: "nat \<Rightarrow> nat list \<Rightarrow> nat list" where
  "reduce_dof M [] = []"
| "reduce_dof M (d # ds) = d div M # reduce_dof M (dropWhile (\<lambda>x. x div M = d div M) ds)"
  by pat_completeness auto
termination
  by (relation "measure (\<lambda>(M, ds). length ds)") (auto simp: length_dropWhile_le le_imp_less_Suc)

text \<open>
  The container \<open>std::set\<close> of pairs as the list of its elements in the order of
  iteration, which is the lexicographic order of \<open>std::pair\<close>; inserting an element that
  is present changes nothing.
\<close>

definition set_insert :: "'a::linorder \<Rightarrow> 'a list \<Rightarrow> 'a list" where
  "set_insert x xs = (if x \<in> set xs then xs else insort x xs)"

definition element_rows :: "nat \<Rightarrow> nat \<Rightarrow> ElementMesh \<Rightarrow> nat \<Rightarrow> nat list" where
  "element_rows ndof M mesh i =
     reduce_dof M (map (\<lambda>j1. element_dof mesh ! (i * ndof + j1)) [0..<ndof])"

definition insert_element_pairs :: "nat list \<Rightarrow> (nat \<times> nat) list \<Rightarrow> (nat \<times> nat) list" where
  "insert_element_pairs dof_reduced node_set =
     fold (\<lambda>j1. fold (\<lambda>j2. set_insert (dof_reduced ! j1, dof_reduced ! j2))
                   [0..<length dof_reduced])
       [0..<length dof_reduced] node_set"

definition node_pairs :: "nat \<Rightarrow> nat \<Rightarrow> ElementMesh \<Rightarrow> (nat \<times> nat) list" where
  "node_pairs ndof M mesh =
     fold (\<lambda>i. insert_element_pairs (element_rows ndof M mesh i)) [0..<mesh_nelems mesh] []"

definition count_rows :: "(nat \<times> nat) list \<Rightarrow> nat list \<Rightarrow> nat list" where
  "count_rows node_set rowp0 =
     fold (\<lambda>it r. r[fst it + 1 := r ! (fst it + 1) + 1]) node_set rowp0"

definition accumulate_rows :: "nat \<Rightarrow> nat list \<Rightarrow> nat list" where
  "accumulate_rows nrows rowp0 =
     fold (\<lambda>i r. r[i + 1 := r ! (i + 1) + r ! i]) [0..<nrows] (rowp0[0 := 0])"

definition scatter_cols ::
  "(nat \<times> nat) list \<Rightarrow> nat list \<times> nat list \<Rightarrow> nat list \<times> nat list" where
  "scatter_cols node_set rc =
     fold (\<lambda>it (r, c). (r[fst it := r ! fst it + 1], c[r ! fst it := snd it])) node_set rc"

definition shift_row :: "nat \<Rightarrow> nat list \<Rightarrow> nat list" where
  "shift_row i r = r[i := r ! (i - 1)]"

definition shift_rows :: "nat \<Rightarrow> nat list \<Rightarrow> nat list" where
  "shift_rows nrows rowp0 = (fold shift_row (rev [1..<nrows + 1]) rowp0)[0 := 0]"

text \<open>
  Modelled from the spec: \<open>SortCSRData\<close> is called by \<open>create_block_matrix\<close> and defined
  in a header that is not among the sources. The specification describes the step as
  sorting the columns within each row in ascending order.
\<close>

definition SortCSRData :: "nat \<Rightarrow> nat list \<Rightarrow> nat list \<Rightarrow> nat list" where
  "SortCSRData nrows rowp0 cols0 =
     fold (\<lambda>i c. take (rowp0 ! i) c
                  @ sort (take (rowp0 ! (i + 1) - rowp0 ! i) (drop (rowp0 ! i) c))
                  @ drop (rowp0 ! (i + 1)) c)
       [0..<nrows] cols0"

text \<open>
  \<open>create_block_matrix\<close> for the block size \<open>M\<close> (a template argument) and \<open>ndof\<close>
  degrees of freedom per element (\<open>Basis::ndof\<close>). The vectors \<open>rowp\<close> and \<open>cols\<close>
  start filled with zeros.
\<close>

definition create_block_matrix :: "nat \<Rightarrow> nat \<Rightarrow> ElementMesh \<Rightarrow> BSRMat" where
  "create_block_matrix ndof M mesh =
     (let node_set = node_pairs ndof M mesh;
          nrows = num_dof mesh div M + (if num_dof mesh mod M > 0 then 1 else 0);
          rowp1 = accumulate_rows nrows (count_rows node_set (replicate (nrows + 1) 0));
          nnz1 = rowp1 ! nrows
      in case scatter_cols node_set (rowp1, replicate nnz1 0) of
           (rowp2, cols2) \<Rightarrow>
             (let rowp3 = shift_rows nrows rowp2;
                  cols3 = SortCSRData nrows rowp3 cols2
              in bsr_mat nrows nrows nnz1 rowp3 cols3))"


subsection \<open>The set of pairs\<close>

lemma dropWhile_cases:
  "x \<in> set ds \<Longrightarrow> P x \<or> x \<in> set (dropWhile P ds)"
  by (induction ds) auto

lemma set_reduce_dof: "set (reduce_dof M ds) = (\<lambda>d. d div M) ` set ds"
proof (induction M ds rule: reduce_dof.induct)
  case (1 M)
  then show ?case by simp
next
  case (2 M d ds)
  define P where "P = (\<lambda>x. x div M = d div M)"
  define D where "D = dropWhile P ds"
  have ih: "set (reduce_dof M D) = (\<lambda>d. d div M) ` set D"
    using 2 by (simp add: D_def P_def)
  have sub: "set D \<subseteq> set ds"
    unfolding D_def by (auto dest: set_dropWhileD)
  have k: "\<And>x. x \<in> set ds \<Longrightarrow> x div M = d div M \<or> x \<in> set D"
    using dropWhile_cases[of _ ds P] by (simp add: D_def P_def)
  have l: "set (reduce_dof M (d # ds)) = insert (d div M) ((\<lambda>d. d div M) ` set D)"
    using ih by (simp add: D_def P_def)
  have "insert (d div M) ((\<lambda>d. d div M) ` set D) = insert (d div M) ((\<lambda>d. d div M) ` set ds)"
  proof (intro set_eqI iffI)
    fix y assume "y \<in> insert (d div M) ((\<lambda>d. d div M) ` set D)"
    then show "y \<in> insert (d div M) ((\<lambda>d. d div M) ` set ds)" using sub by blast
  next
    fix y assume "y \<in> insert (d div M) ((\<lambda>d. d div M) ` set ds)"
    then show "y \<in> insert (d div M) ((\<lambda>d. d div M) ` set D)" using k by blast
  qed
  then show ?case using l by simp
qed

lemma set_insert_props:
  "set (set_insert x xs) = insert x (set xs)"
  "sorted xs \<Longrightarrow> sorted (set_insert x xs)"
  "distinct xs \<Longrightarrow> distinct (set_insert x xs)"
  by (auto simp: set_insert_def sorted_insort distinct_insort set_insort_key)

definition std_set :: "'a::linorder list \<Rightarrow> bool" where
  "std_set xs = (sorted xs \<and> distinct xs)"

lemma std_set_insert: "std_set xs \<Longrightarrow> std_set (set_insert x xs)"
  by (simp add: std_set_def set_insert_props)

lemma std_set_Nil: "std_set []"
  by (simp add: std_set_def)

lemma nth_image_upt: "(\<lambda>j. rs ! j) ` {0..<length rs} = set rs"
  by (auto simp: set_conv_nth)

lemma insert_row_pairs_props:
  "set (fold (\<lambda>j2. set_insert (a, rs ! j2)) [0..<length rs] s) = set s \<union> {a} \<times> set rs
   \<and> (std_set s \<longrightarrow> std_set (fold (\<lambda>j2. set_insert (a, rs ! j2)) [0..<length rs] s))"
proof -
  have step: "\<And>i t. i < length rs \<Longrightarrow>
      set t = set s \<union> {a} \<times> (\<lambda>j. rs ! j) ` {0..<i} \<and> (std_set s \<longrightarrow> std_set t) \<Longrightarrow>
      set (set_insert (a, rs ! i) t) = set s \<union> {a} \<times> (\<lambda>j. rs ! j) ` {0..<Suc i}
        \<and> (std_set s \<longrightarrow> std_set (set_insert (a, rs ! i) t))"
    by (auto simp: set_insert_props(1) std_set_insert atLeast0_lessThan_Suc)
  have "set (fold (\<lambda>j2. set_insert (a, rs ! j2)) [0..<length rs] s)
            = set s \<union> {a} \<times> (\<lambda>j. rs ! j) ` {0..<length rs}
          \<and> (std_set s \<longrightarrow> std_set (fold (\<lambda>j2. set_insert (a, rs ! j2)) [0..<length rs] s))"
    by (rule fold_upt_invariant[where
          P = "\<lambda>k t. set t = set s \<union> {a} \<times> (\<lambda>j. rs ! j) ` {0..<k}
                   \<and> (std_set s \<longrightarrow> std_set t)"
          and f = "\<lambda>j2. set_insert (a, rs ! j2)" and n = "length rs" and s = s])
       (simp, rule step)
  then show ?thesis unfolding nth_image_upt .
qed

lemma insert_element_pairs_props:
  "set (insert_element_pairs rs s) = set s \<union> set rs \<times> set rs"
  "std_set s \<Longrightarrow> std_set (insert_element_pairs rs s)"
proof -
  let ?n = "length rs"
  let ?inner = "\<lambda>j1. fold (\<lambda>j2. set_insert (rs ! j1, rs ! j2)) [0..<?n]"
  have step: "\<And>i t. i < ?n \<Longrightarrow>
      set t = set s \<union> (\<lambda>j. rs ! j) ` {0..<i} \<times> set rs \<and> (std_set s \<longrightarrow> std_set t) \<Longrightarrow>
      set (?inner i t) = set s \<union> (\<lambda>j. rs ! j) ` {0..<Suc i} \<times> set rs
        \<and> (std_set s \<longrightarrow> std_set (?inner i t))"
  proof -
    fix i t
    assume h: "set t = set s \<union> (\<lambda>j. rs ! j) ` {0..<i} \<times> set rs \<and> (std_set s \<longrightarrow> std_set t)"
    note r = insert_row_pairs_props[of "rs ! i" rs t]
    have "set (?inner i t) = set t \<union> {rs ! i} \<times> set rs" using r by (rule conjunct1)
    then have 1: "set (?inner i t) = set s \<union> (\<lambda>j. rs ! j) ` {0..<Suc i} \<times> set rs"
      using h by (auto simp: atLeast0_lessThan_Suc)
    have 2: "std_set s \<longrightarrow> std_set (?inner i t)" using r h by blast
    show "set (?inner i t) = set s \<union> (\<lambda>j. rs ! j) ` {0..<Suc i} \<times> set rs
        \<and> (std_set s \<longrightarrow> std_set (?inner i t))"
      using 1 2 by (rule conjI)
  qed
  have "set (fold ?inner [0..<?n] s) = set s \<union> (\<lambda>j. rs ! j) ` {0..<?n} \<times> set rs
      \<and> (std_set s \<longrightarrow> std_set (fold ?inner [0..<?n] s))"
    by (rule fold_upt_invariant[where
          P = "\<lambda>k t. set t = set s \<union> (\<lambda>j. rs ! j) ` {0..<k} \<times> set rs
                   \<and> (std_set s \<longrightarrow> std_set t)"
          and f = ?inner and n = ?n and s = s])
       (simp, rule step)
  then show "set (insert_element_pairs rs s) = set s \<union> set rs \<times> set rs"
    "std_set s \<Longrightarrow> std_set (insert_element_pairs rs s)"
    unfolding insert_element_pairs_def nth_image_upt by blast+
qed

lemma node_pairs_props:
  "set (node_pairs ndof M mesh) = (\<Union>i<mesh_nelems mesh. set (element_rows ndof M mesh i) \<times> set (element_rows ndof M mesh i))"
  "std_set (node_pairs ndof M mesh)"
proof -
  let ?f = "\<lambda>i. insert_element_pairs (element_rows ndof M mesh i)"
  let ?R = "\<lambda>i. set (element_rows ndof M mesh i) \<times> set (element_rows ndof M mesh i)"
  have step: "\<And>i t. set t = (\<Union>i<i. ?R i) \<and> std_set t \<Longrightarrow>
      set (?f i t) = (\<Union>i<Suc i. ?R i) \<and> std_set (?f i t)"
    by (auto simp: insert_element_pairs_props lessThan_Suc)
  have "set (fold ?f [0..<mesh_nelems mesh] []) = (\<Union>i<mesh_nelems mesh. ?R i)
      \<and> std_set (fold ?f [0..<mesh_nelems mesh] [])"
    by (rule fold_upt_invariant[where
          P = "\<lambda>k t. set t = (\<Union>i<k. ?R i) \<and> std_set t"
          and f = ?f and n = "mesh_nelems mesh" and s = "[]"])
       (simp add: std_set_Nil, rule step)
  then show "set (node_pairs ndof M mesh) = (\<Union>i<mesh_nelems mesh. ?R i)"
    "std_set (node_pairs ndof M mesh)"
    by (simp_all add: node_pairs_def)
qed


subsection \<open>The compressed rows\<close>

definition rows_below :: "(nat \<times> nat) list \<Rightarrow> nat \<Rightarrow> nat" where
  "rows_below ps i = length (filter (\<lambda>p. fst p < i) ps)"

definition rows_at :: "(nat \<times> nat) list \<Rightarrow> nat \<Rightarrow> nat" where
  "rows_at ps i = length (filter (\<lambda>p. fst p = i) ps)"

lemma rows_below_0: "rows_below ps 0 = 0"
  by (simp add: rows_below_def)

lemma rows_below_Suc: "rows_below ps (Suc i) = rows_below ps i + rows_at ps i"
  unfolding rows_below_def rows_at_def by (induction ps) auto

lemma rows_below_all: "\<forall>p\<in>set ps. fst p < n \<Longrightarrow> rows_below ps n = length ps"
  unfolding rows_below_def by (induction ps) auto

lemma count_rows_Cons:
  "count_rows (p # ps) r = count_rows ps (r[fst p + 1 := r ! (fst p + 1) + 1])"
  by (simp add: count_rows_def)

lemma count_rows_length: "length (count_rows ps r) = length r"
  by (induction ps arbitrary: r) (simp_all add: count_rows_Cons, simp add: count_rows_def)

lemma count_rows_nth':
  "\<forall>p\<in>set ps. fst p + 1 < length r \<Longrightarrow> j < length r \<Longrightarrow>
     count_rows ps r ! j = r ! j + length (filter (\<lambda>p. fst p + 1 = j) ps)"
proof (induction ps arbitrary: r)
  case Nil
  then show ?case by (simp add: count_rows_def)
next
  case (Cons p ps)
  let ?r = "r[fst p + 1 := r ! (fst p + 1) + 1]"
  have a: "\<forall>q\<in>set ps. fst q + 1 < length ?r" using Cons.prems(1) by auto
  have j: "j < length ?r" using Cons.prems(2) by simp
  have p: "fst p + 1 < length r" using Cons.prems(1) by auto
  show ?case
    using Cons.IH[OF a j] p Cons.prems(2)
    by (auto simp: count_rows_Cons nth_list_update)
qed

lemma count_rows_replicate:
  assumes "\<forall>p\<in>set ps. fst p < nrows"
  shows "length (count_rows ps (replicate (nrows + 1) 0)) = nrows + 1"
    and "\<And>i. i < nrows \<Longrightarrow> count_rows ps (replicate (nrows + 1) 0) ! (i + 1) = rows_at ps i"
proof -
  have a: "\<forall>p\<in>set ps. fst p + 1 < length (replicate (nrows + 1) (0::nat))"
    using assms by simp
  show "length (count_rows ps (replicate (nrows + 1) 0)) = nrows + 1"
    using count_rows_length[of ps "replicate (nrows + 1) 0"] by simp
  fix i assume i: "i < nrows"
  have "i + 1 < length (replicate (nrows + 1) (0::nat))" using i by simp
  from count_rows_nth'[OF a this]
  show "count_rows ps (replicate (nrows + 1) 0) ! (i + 1) = rows_at ps i"
    using i by (simp add: rows_at_def)
qed

lemma accumulate_rows_nth:
  assumes len: "length r = nrows + 1"
    and cnt: "\<And>i. i < nrows \<Longrightarrow> r ! (i + 1) = rows_at ps i"
  shows "length (accumulate_rows nrows r) = nrows + 1"
    and "\<And>i. i \<le> nrows \<Longrightarrow> accumulate_rows nrows r ! i = rows_below ps i"
proof -
  define P where "P = (\<lambda>k (s::nat list). length s = nrows + 1
      \<and> (\<forall>i\<le>k. s ! i = rows_below ps i)
      \<and> (\<forall>i. k < i \<and> i \<le> nrows \<longrightarrow> s ! i = rows_at ps (i - 1)))"
  define f where "f = (\<lambda>i (r::nat list). r[i + 1 := r ! (i + 1) + r ! i])"
  have init: "P 0 (r[0 := 0])"
  proof -
    have "\<And>i. 0 < i \<and> i \<le> nrows \<Longrightarrow> r ! i = rows_at ps (i - 1)"
    proof -
      fix i assume "0 < i \<and> i \<le> nrows"
      then have "i - 1 < nrows" "i = (i - 1) + 1" by linarith+
      then show "r ! i = rows_at ps (i - 1)" using cnt[of "i - 1"] by simp
    qed
    then show ?thesis using len by (simp add: P_def rows_below_0)
  qed
  have step: "\<And>k s. k < nrows \<Longrightarrow> P k s \<Longrightarrow> P (Suc k) (f k s)"
  proof -
    fix k s assume k: "k < nrows" and p: "P k s"
    have l: "length s = nrows + 1" using p by (simp add: P_def)
    have b: "\<And>i. i \<le> k \<Longrightarrow> s ! i = rows_below ps i" using p by (simp add: P_def)
    have a: "\<And>i. k < i \<Longrightarrow> i \<le> nrows \<Longrightarrow> s ! i = rows_at ps (i - 1)"
      using p by (simp add: P_def)
    have n: "f k s ! Suc k = rows_below ps (Suc k)"
      using l k b[of k] a[of "Suc k"] by (simp add: f_def rows_below_Suc)
    have o: "\<And>i. i \<noteq> Suc k \<Longrightarrow> f k s ! i = s ! i" by (simp add: f_def)
    have 1: "\<forall>i\<le>Suc k. f k s ! i = rows_below ps i"
    proof (intro allI impI)
      fix i assume "i \<le> Suc k"
      then consider "i = Suc k" | "i \<le> k" by linarith
      then show "f k s ! i = rows_below ps i"
        by cases (simp_all add: n o b)
    qed
    have 2: "\<forall>i. Suc k < i \<and> i \<le> nrows \<longrightarrow> f k s ! i = rows_at ps (i - 1)"
      using o a by simp
    have 3: "length (f k s) = nrows + 1" using l by (simp add: f_def)
    show "P (Suc k) (f k s)" unfolding P_def using 1 2 3 by blast
  qed
  have "P nrows (fold f [0..<nrows] (r[0 := 0]))"
    using init step by (rule fold_upt_invariant[where P = P and f = f and n = nrows])
  then have "P nrows (accumulate_rows nrows r)"
    by (simp add: accumulate_rows_def f_def)
  then show "length (accumulate_rows nrows r) = nrows + 1"
    and "\<And>i. i \<le> nrows \<Longrightarrow> accumulate_rows nrows r ! i = rows_below ps i"
    by (simp_all add: P_def)
qed


lemma rows_below_append: "rows_below (xs @ ys) i = rows_below xs i + rows_below ys i"
  by (simp add: rows_below_def)

lemma rows_at_append: "rows_at (xs @ ys) i = rows_at xs i + rows_at ys i"
  by (simp add: rows_at_def)

lemma rows_below_none: "\<forall>q\<in>set xs. x \<le> fst q \<Longrightarrow> rows_below xs x = 0"
  unfolding rows_below_def by (induction xs) auto

lemma rows_upto: "\<forall>q\<in>set xs. fst q \<le> x \<Longrightarrow> rows_below xs x + rows_at xs x = length xs"
  unfolding rows_below_def rows_at_def by (induction xs) auto

lemma sorted_position:
  assumes "sorted (map fst (pre @ p # rest))"
  shows "rows_below (pre @ p # rest) (fst p) + rows_at pre (fst p) = length pre"
proof -
  have a: "\<forall>q\<in>set pre. fst q \<le> fst p" and b: "\<forall>q\<in>set (p # rest). fst p \<le> fst q"
    using assms by (auto simp: sorted_append)
  have "rows_below (pre @ p # rest) (fst p) = rows_below pre (fst p)"
    using rows_below_none[OF b] by (simp add: rows_below_append)
  then show ?thesis using rows_upto[OF a] by simp
qed

lemma scatter_cols_Nil: "scatter_cols [] rc = rc"
  by (simp add: scatter_cols_def)

lemma scatter_cols_Cons:
  "scatter_cols (p # ps) (r, c) =
     scatter_cols ps (r[fst p := r ! fst p + 1], c[r ! fst p := snd p])"
  by (simp add: scatter_cols_def)

lemma scatter_cols_inv:
  assumes "sorted (map fst (pre @ rest))"
    and "length c = length (pre @ rest)"
    and "\<forall>i<length r. r ! i = rows_below (pre @ rest) i + rows_at pre i"
    and "\<forall>p\<in>set rest. fst p < length r"
    and "take (length pre) c = map snd pre"
  shows "snd (scatter_cols rest (r, c)) = map snd (pre @ rest)
       \<and> length (fst (scatter_cols rest (r, c))) = length r
       \<and> (\<forall>i<length r. fst (scatter_cols rest (r, c)) ! i
             = rows_below (pre @ rest) i + rows_at (pre @ rest) i)"
  using assms
proof (induction rest arbitrary: pre r c)
  case Nil
  have "c = map snd pre" using Nil.prems(2,5) by simp
  then show ?case using Nil.prems(3) by (simp add: scatter_cols_Nil)
next
  case (Cons p rest)
  define r1 where "r1 = r[fst p := r ! fst p + 1]"
  define c1 where "c1 = c[r ! fst p := snd p]"
  have fp: "fst p < length r" using Cons.prems(4) by simp
  have pos: "r ! fst p = length pre"
    using Cons.prems(3) fp sorted_position[OF Cons.prems(1)] by simp
  have e: "(pre @ [p]) @ rest = pre @ p # rest" by simp
  have 1: "sorted (map fst ((pre @ [p]) @ rest))" using Cons.prems(1) by simp
  have 2: "length c1 = length ((pre @ [p]) @ rest)" using Cons.prems(2) by (simp add: c1_def)
  have 3: "\<forall>i<length r1. r1 ! i = rows_below ((pre @ [p]) @ rest) i + rows_at (pre @ [p]) i"
  proof (intro allI impI)
    fix i assume "i < length r1"
    then have i: "i < length r" by (simp add: r1_def)
    have o: "r ! i = rows_below (pre @ p # rest) i + rows_at pre i"
      using Cons.prems(3) i by simp
    show "r1 ! i = rows_below ((pre @ [p]) @ rest) i + rows_at (pre @ [p]) i"
      unfolding e using o i by (auto simp: r1_def nth_list_update rows_at_append rows_at_def)
  qed
  have 4: "\<forall>q\<in>set rest. fst q < length r1" using Cons.prems(4) by (simp add: r1_def)
  have lp: "length pre < length c1" using Cons.prems(2) by (simp add: c1_def)
  have "take (Suc (length pre)) c1 = take (length pre) c1 @ [c1 ! length pre]"
    using lp by (rule take_Suc_conv_app_nth)
  moreover have "take (length pre) c1 = map snd pre"
    using Cons.prems(5) by (simp add: c1_def pos)
  moreover have "c1 ! length pre = snd p"
    using lp by (simp add: c1_def pos)
  ultimately have 5: "take (length (pre @ [p])) c1 = map snd (pre @ [p])" by simp
  have u: "scatter_cols (p # rest) (r, c) = scatter_cols rest (r1, c1)"
    by (simp add: scatter_cols_Cons r1_def c1_def)
  have "length r1 = length r" by (simp add: r1_def)
  then show ?case
    using Cons.IH[OF 1 2 3 4 5] unfolding u e by simp
qed

lemma shift_fold_length: "length (fold shift_row xs r) = length r"
  by (induction xs arbitrary: r) (simp_all add: shift_row_def)

lemma shift_fold_nth:
  "n < length r \<Longrightarrow> i < length r \<Longrightarrow>
     fold shift_row (rev [1..<Suc n]) r ! i
       = (if 1 \<le> i \<and> i \<le> n then r ! (i - 1) else r ! i)"
proof (induction n arbitrary: r)
  case 0
  then show ?case by simp
next
  case (Suc n)
  define r1 where "r1 = r[Suc n := r ! n]"
  have u: "fold shift_row (rev [1..<Suc (Suc n)]) r = fold shift_row (rev [1..<Suc n]) r1"
    by (simp add: r1_def shift_row_def)
  have n: "n < length r1" and i: "i < length r1" using Suc.prems by (simp_all add: r1_def)
  show ?case
    unfolding u using Suc.IH[OF n i] Suc.prems
    by (auto simp: r1_def nth_list_update)
qed

lemma shift_rows_nth:
  assumes "length r = nrows + 1"
  shows "length (shift_rows nrows r) = nrows + 1"
    and "\<And>i. i \<le> nrows \<Longrightarrow> shift_rows nrows r ! i = (if i = 0 then 0 else r ! (i - 1))"
proof -
  define s where "s = fold shift_row (rev [1..<Suc nrows]) r"
  have e: "shift_rows nrows r = s[0 := 0]" by (simp add: shift_rows_def s_def)
  have l: "length s = nrows + 1" unfolding s_def shift_fold_length by (rule assms)
  show "length (shift_rows nrows r) = nrows + 1" using l by (simp add: e)
  fix i assume i: "i \<le> nrows"
  have a: "nrows < length r" "i < length r" using assms i by simp_all
  have n: "s ! i = (if 1 \<le> i \<and> i \<le> nrows then r ! (i - 1) else r ! i)"
    unfolding s_def using a by (rule shift_fold_nth)
  show "shift_rows nrows r ! i = (if i = 0 then 0 else r ! (i - 1))"
  proof (cases "i = 0")
    case True
    then show ?thesis using l by (simp add: e)
  next
    case False
    then have "s[0 := 0] ! i = s ! i" by simp
    then show ?thesis using n i False by (simp add: e)
  qed
qed

lemma sorted_fst_split:
  "sorted (map fst (ps::(nat \<times> nat) list)) \<Longrightarrow>
     ps = filter (\<lambda>p. fst p < i) ps @ filter (\<lambda>p. fst p = i) ps @ filter (\<lambda>p. i < fst p) ps"
proof (induction ps)
  case Nil
  then show ?case by simp
next
  case (Cons p ps)
  have ge: "\<forall>q\<in>set ps. fst p \<le> fst q" and s: "sorted (map fst ps)"
    using Cons.prems by auto
  note ih = Cons.IH[OF s]
  consider "fst p < i" | "fst p = i" | "i < fst p" by linarith
  then show ?case
  proof cases
    case 1
    then show ?thesis using ih by simp
  next
    case 2
    then have "filter (\<lambda>q. fst q < i) ps = []" using ge by (auto simp: filter_empty_conv)
    then show ?thesis using 2 ih by simp
  next
    case 3
    then have "filter (\<lambda>q. fst q < i) ps = []" "filter (\<lambda>q. fst q = i) ps = []"
      using ge by (auto simp: filter_empty_conv)
    then show ?thesis using 3 ih by simp
  qed
qed

lemma row_segment:
  assumes "sorted (map fst ps)"
  shows "take (rows_at ps i) (drop (rows_below ps i) ps) = filter (\<lambda>p. fst p = i) ps"
proof -
  define A where "A = filter (\<lambda>p. fst p < i) ps"
  define B where "B = filter (\<lambda>p. fst p = i) ps"
  define C where "C = filter (\<lambda>p. i < fst p) ps"
  have ps: "ps = A @ B @ C"
    unfolding A_def B_def C_def using assms by (rule sorted_fst_split)
  have "take (length B) (drop (length A) (A @ B @ C)) = B" by simp
  then have "take (length B) (drop (length A) ps) = B" using ps by simp
  then show ?thesis by (simp add: A_def B_def rows_at_def rows_below_def)
qed

lemma sorted_pairs_fst: "sorted (ps::(nat \<times> nat) list) \<Longrightarrow> sorted (map fst ps)"
  by (induction ps) (auto simp: less_eq_prod_def)

lemma std_set_row:
  "std_set (ps::(nat \<times> nat) list) \<Longrightarrow> sorted_wrt (<) (map snd (filter (\<lambda>p. fst p = i) ps))"
proof -
  assume "std_set ps"
  then have "sorted_wrt (<) ps" by (simp add: std_set_def strict_sorted_iff)
  then show ?thesis
    by (induction ps) (auto simp: less_prod_def)
qed


lemma csr_rows:
  assumes st: "sorted (map fst ps)" and b: "\<forall>p\<in>set ps. fst p < nrows"
    and r1: "rowp1 = accumulate_rows nrows (count_rows ps (replicate (nrows + 1) 0))"
    and sc: "scatter_cols ps (rowp1, replicate (rowp1 ! nrows) 0) = (rowp2, cols2)"
  shows "rowp1 ! nrows = length ps"
    and "cols2 = map snd ps"
    and "length (shift_rows nrows rowp2) = nrows + 1"
    and "\<And>i. i \<le> nrows \<Longrightarrow> shift_rows nrows rowp2 ! i = rows_below ps i"
proof -
  let ?c = "count_rows ps (replicate (nrows + 1) 0)"
  have cl: "length ?c = nrows + 1" and cn: "\<And>i. i < nrows \<Longrightarrow> ?c ! (i + 1) = rows_at ps i"
    using count_rows_replicate[OF b] by blast+
  have al: "length rowp1 = nrows + 1"
    unfolding r1 using cl cn by (rule accumulate_rows_nth(1))
  have an: "\<And>i. i \<le> nrows \<Longrightarrow> rowp1 ! i = rows_below ps i"
    unfolding r1 using cl cn by (rule accumulate_rows_nth(2))
  show n: "rowp1 ! nrows = length ps"
    using an[of nrows] rows_below_all[OF b] by simp
  have 1: "sorted (map fst ([] @ ps))" using st by simp
  have 2: "length (replicate (rowp1 ! nrows) (0::nat)) = length ([] @ ps)" using n by simp
  have 3: "\<forall>i<length rowp1. rowp1 ! i = rows_below ([] @ ps) i + rows_at [] i"
    using an al by (simp add: rows_at_def)
  have 4: "\<forall>p\<in>set ps. fst p < length rowp1" using b al by auto
  have 5: "take (length []) (replicate (rowp1 ! nrows) (0::nat)) = map snd []" by simp
  note inv = scatter_cols_inv[OF 1 2 3 4 5, unfolded sc]
  show "cols2 = map snd ps" using inv by simp
  have l2: "length rowp2 = nrows + 1" using inv al by simp
  have n2: "\<And>i. i \<le> nrows \<Longrightarrow> rowp2 ! i = rows_below ps i + rows_at ps i"
    using inv al by simp
  show "length (shift_rows nrows rowp2) = nrows + 1"
    using l2 by (rule shift_rows_nth(1))
  fix i assume i: "i \<le> nrows"
  show "shift_rows nrows rowp2 ! i = rows_below ps i"
  proof (cases i)
    case 0
    then show ?thesis using shift_rows_nth(2)[OF l2 i] by (simp add: rows_below_0)
  next
    case (Suc k)
    then have "rowp2 ! k = rows_below ps k + rows_at ps k" using n2[of k] i by simp
    then show ?thesis using shift_rows_nth(2)[OF l2 i] Suc by (simp add: rows_below_Suc)
  qed
qed

lemma SortCSRData_sorted:
  assumes "\<And>i. i < nrows \<Longrightarrow> rp ! i \<le> rp ! (i + 1)"
    and "\<And>i. i < nrows \<Longrightarrow> sorted (take (rp ! (i + 1) - rp ! i) (drop (rp ! i) c))"
  shows "SortCSRData nrows rp c = c"
proof -
  define f where "f = (\<lambda>i (c::nat list). take (rp ! i) c
                  @ sort (take (rp ! (i + 1) - rp ! i) (drop (rp ! i) c))
                  @ drop (rp ! (i + 1)) c)"
  have step: "\<And>i s. i \<in> set [0..<nrows] \<Longrightarrow> s = c \<Longrightarrow> f i s = c"
  proof -
    fix i s assume i: "i \<in> set [0..<nrows]" and s: "s = c"
    have lt: "i < nrows" using i by simp
    let ?a = "rp ! i" and ?b = "rp ! (i + 1)"
    have "sort (take (?b - ?a) (drop ?a c)) = take (?b - ?a) (drop ?a c)"
      using assms(2)[OF lt] by (rule sorted_sort_id)
    moreover have "take ?a c @ take (?b - ?a) (drop ?a c) = take (?a + (?b - ?a)) c"
      by (rule take_add[symmetric])
    moreover have "?a + (?b - ?a) = ?b" using assms(1)[OF lt] by simp
    ultimately have "f i c = take ?b c @ drop ?b c"
      unfolding f_def by (metis append_assoc)
    then show "f i s = c" using s by simp
  qed
  have "fold f [0..<nrows] c = c"
    by (rule fold_invariant[where P = "\<lambda>s. s = c" and f = f and xs = "[0..<nrows]" and s = c])
       (simp, rule step)
  then show ?thesis by (simp add: SortCSRData_def f_def)
qed

lemma cols_segment:
  assumes "sorted (map fst ps)"
  shows "take (rows_below ps (i + 1) - rows_below ps i) (drop (rows_below ps i) (map snd ps))
       = map snd (filter (\<lambda>p. fst p = i) ps)"
proof -
  have "rows_below ps (i + 1) - rows_below ps i = rows_at ps i"
    by (simp add: rows_below_Suc)
  then show ?thesis
    using row_segment[OF assms, of i] by (simp add: take_map drop_map)
qed

lemma ceil_aux:
  assumes "0 < (M::nat)" and "r < M"
  shows "(q * M + r + M - 1) div M = q + (if r > 0 then 1 else 0)"
proof (cases "r = 0")
  case True
  have "(q * M + M - 1) div M = q"
    using assms(1) by (intro div_nat_eqI) (simp_all add: algebra_simps)
  then show ?thesis using True by simp
next
  case False
  have "(q * M + r + M - 1) div M = q + 1"
    using assms False by (intro div_nat_eqI) (simp_all add: algebra_simps)
  then show ?thesis using False by simp
qed

lemma ceil_rows:
  assumes "0 < (M::nat)"
  shows "n div M + (if n mod M > 0 then 1 else 0) = (n + M - 1) div M"
    and "d < n \<Longrightarrow> d div M < n div M + (if n mod M > 0 then 1 else 0)"
proof -
  have e: "n div M * M + n mod M = n" by (rule div_mult_mod_eq)
  have r: "n mod M < M" using assms by simp
  have "(n div M * M + n mod M + M - 1) div M = n div M + (if n mod M > 0 then 1 else 0)"
    using assms r by (rule ceil_aux)
  then show "n div M + (if n mod M > 0 then 1 else 0) = (n + M - 1) div M"
    by (simp only: e)
  assume d: "d < n"
  show "d div M < n div M + (if n mod M > 0 then 1 else 0)"
  proof (cases "n mod M = 0")
    case True
    have "d < n div M * M" using d e True by linarith
    then have "d div M < n div M" using assms by (simp only: div_less_iff_less_mult)
    then show ?thesis by simp
  next
    case False
    have "d div M \<le> n div M" using d by (simp add: div_le_mono)
    then show ?thesis using False by simp
  qed
qed


lemma rows_below_mono: "rows_below ps i \<le> rows_below ps (i + 1)"
  by (simp add: rows_below_Suc)

lemma node_pairs_rows:
  "set (node_pairs ndof M mesh) =
     {(element_dof mesh ! (i * ndof + j1) div M, element_dof mesh ! (i * ndof + j2) div M)
        | i j1 j2. i < mesh_nelems mesh \<and> j1 < ndof \<and> j2 < ndof}"
proof -
  have r: "set (element_rows ndof M mesh i) = {element_dof mesh ! (i * ndof + j) div M | j. j < ndof}"
    for i
    by (auto simp: element_rows_def set_reduce_dof)
  show ?thesis
    unfolding node_pairs_props(1) r by blast
qed

lemma node_pairs_bound:
  assumes "0 < M"
    and "\<forall>i<mesh_nelems mesh. \<forall>j<ndof. element_dof mesh ! (i * ndof + j) < num_dof mesh"
    and "p \<in> set (node_pairs ndof M mesh)"
  shows "fst p < num_dof mesh div M + (if num_dof mesh mod M > 0 then 1 else 0)"
proof -
  from assms(3) obtain i j1 j2 where
    "p = (element_dof mesh ! (i * ndof + j1) div M, element_dof mesh ! (i * ndof + j2) div M)"
    "i < mesh_nelems mesh" "j1 < ndof"
    unfolding node_pairs_rows by blast
  then have "fst p = element_dof mesh ! (i * ndof + j1) div M"
    and "element_dof mesh ! (i * ndof + j1) < num_dof mesh"
    using assms(2) by simp_all
  then show ?thesis using ceil_rows(2)[OF assms(1)] by simp
qed

lemma create_block_matrix_eq:
  assumes M: "0 < M"
    and dof: "\<forall>i<mesh_nelems mesh. \<forall>j<ndof. element_dof mesh ! (i * ndof + j) < num_dof mesh"
    and ps: "ps = node_pairs ndof M mesh"
    and nrows: "nrows = num_dof mesh div M + (if num_dof mesh mod M > 0 then 1 else 0)"
  shows "create_block_matrix ndof M mesh =
           \<lparr>nbrows = nrows, nbcols = nrows, nnz = length ps,
            rowp = map (rows_below ps) [0..<nrows + 1], cols = map snd ps\<rparr>"
proof -
  define rowp1 where "rowp1 = accumulate_rows nrows (count_rows ps (replicate (nrows + 1) 0))"
  obtain rowp2 cols2 where sc: "scatter_cols ps (rowp1, replicate (rowp1 ! nrows) 0) = (rowp2, cols2)"
    by (cases "scatter_cols ps (rowp1, replicate (rowp1 ! nrows) 0)")
  have st: "std_set ps" unfolding ps by (rule node_pairs_props(2))
  have sf: "sorted (map fst ps)" using st by (simp add: std_set_def sorted_pairs_fst)
  have b: "\<forall>p\<in>set ps. fst p < nrows"
    unfolding ps nrows using node_pairs_bound[OF M dof] by blast
  note c = csr_rows[OF sf b rowp1_def sc]
  define rowp3 where "rowp3 = shift_rows nrows rowp2"
  have r3: "rowp3 = map (rows_below ps) [0..<nrows + 1]"
  proof (rule nth_equalityI)
    show "length rowp3 = length (map (rows_below ps) [0..<nrows + 1])"
      using c(3) by (simp add: rowp3_def)
    fix i assume "i < length rowp3"
    then have i: "i \<le> nrows" using c(3) by (simp add: rowp3_def)
    have "map (rows_below ps) [0..<nrows + 1] ! i = rows_below ps i"
      using i by (simp del: upt_Suc add: nth_map_upt)
    then show "rowp3 ! i = map (rows_below ps) [0..<nrows + 1] ! i"
      using c(4)[OF i] by (simp only: rowp3_def)
  qed
  have n3: "\<And>i. i \<le> nrows \<Longrightarrow> rowp3 ! i = rows_below ps i"
    using c(4) by (simp add: rowp3_def)
  have srt: "SortCSRData nrows rowp3 cols2 = cols2"
  proof (rule SortCSRData_sorted)
    fix i assume i: "i < nrows"
    show "rowp3 ! i \<le> rowp3 ! (i + 1)"
      using i n3[of i] n3[of "i + 1"] rows_below_mono[of ps i] by simp
    have "take (rowp3 ! (i + 1) - rowp3 ! i) (drop (rowp3 ! i) cols2)
        = map snd (filter (\<lambda>p. fst p = i) ps)"
      using i n3[of i] n3[of "i + 1"] cols_segment[OF sf, of i] by (simp add: c(2))
    moreover have "sorted (map snd (filter (\<lambda>p. fst p = i) ps))"
      using std_set_row[OF st, of i] by (simp add: strict_sorted_iff)
    ultimately show "sorted (take (rowp3 ! (i + 1) - rowp3 ! i) (drop (rowp3 ! i) cols2))"
      by simp
  qed
  have "create_block_matrix ndof M mesh
      = bsr_mat nrows nrows (rowp1 ! nrows) rowp3 (SortCSRData nrows rowp3 cols2)"
    unfolding create_block_matrix_def Let_def ps[symmetric] nrows[symmetric]
      rowp1_def[symmetric] sc rowp3_def by simp
  also have "\<dots> = bsr_mat nrows nrows (length ps) rowp3 cols2"
    by (simp only: srt c(1))
  also have "\<dots> = \<lparr>nbrows = nrows, nbcols = nrows, nnz = length ps,
            rowp = map (rows_below ps) [0..<nrows + 1], cols = map snd ps\<rparr>"
    unfolding bsr_mat_def r3 c(2) by simp
  finally show ?thesis .
qed


text \<open>The column indices stored for a block row: \<open>cols[rowp[r] .. rowp[r + 1])\<close>.\<close>

definition row_cols :: "BSRMat \<Rightarrow> nat \<Rightarrow> nat list" where
  "row_cols A r = map (\<lambda>jp. cols A ! jp) [rowp A ! r..<rowp A ! (r + 1)]"

lemma map_nth_upt_take_drop:
  "b \<le> length xs \<Longrightarrow> map (\<lambda>j. xs ! j) [a..<b] = take (b - a) (drop a xs)"
  by (rule nth_equalityI) auto

lemma rows_below_le: "rows_below ps i \<le> length ps"
  by (simp add: rows_below_def)

text \<open>
  C8. For a positive block size \<open>M\<close> and an element mesh whose degrees of freedom are
  all below \<open>num_dof\<close>, \<open>create_block_matrix\<close> returns a matrix with
  \<open>nbrows = nbcols = \<lceil>num_dof / M\<rceil>\<close>, in compressed-row form (\<open>nbrows + 1\<close> row
  pointers that start at 0, do not decrease and end at \<open>nnz\<close>, which is the number of
  column indices), whose column indices within each row are strictly ascending, and
  whose nonzero pattern is exactly the set of the pairs \<open>(d1 / M, d2 / M)\<close> for two
  degrees of freedom \<open>d1\<close> and \<open>d2\<close> of one element.
\<close>

theorem create_block_matrix_pattern:
  assumes "0 < M"
    and "\<forall>i<mesh_nelems mesh. \<forall>j<ndof. element_dof mesh ! (i * ndof + j) < num_dof mesh"
    and "A = create_block_matrix ndof M mesh"
  shows "nbrows A = (num_dof mesh + M - 1) div M \<and> nbcols A = nbrows A
       \<and> length (rowp A) = nbrows A + 1 \<and> rowp A ! 0 = 0 \<and> rowp A ! nbrows A = nnz A
       \<and> length (cols A) = nnz A
       \<and> (\<forall>r<nbrows A. rowp A ! r \<le> rowp A ! (r + 1) \<and> sorted_wrt (<) (row_cols A r))
       \<and> {(r, c). r < nbrows A \<and> c \<in> set (row_cols A r)} =
           {(element_dof mesh ! (i * ndof + j1) div M, element_dof mesh ! (i * ndof + j2) div M)
              | i j1 j2. i < mesh_nelems mesh \<and> j1 < ndof \<and> j2 < ndof}"
proof -
  define ps where "ps = node_pairs ndof M mesh"
  define nrows where "nrows = num_dof mesh div M + (if num_dof mesh mod M > 0 then 1 else 0)"
  have A: "A = \<lparr>nbrows = nrows, nbcols = nrows, nnz = length ps,
            rowp = map (rows_below ps) [0..<nrows + 1], cols = map snd ps\<rparr>"
    unfolding assms(3) using assms(1,2) ps_def nrows_def by (rule create_block_matrix_eq)
  have st: "std_set ps" unfolding ps_def by (rule node_pairs_props(2))
  have sf: "sorted (map fst ps)" using st by (simp add: std_set_def sorted_pairs_fst)
  have b: "\<forall>p\<in>set ps. fst p < nrows"
    unfolding ps_def nrows_def using node_pairs_bound[OF assms(1,2)] by blast
  have f: "nbrows A = nrows" "nbcols A = nrows" "nnz A = length ps" "cols A = map snd ps"
    "length (rowp A) = nrows + 1"
    by (simp_all add: A)
  have rp: "rowp A ! i = rows_below ps i" if "i \<le> nrows" for i
    using that by (simp del: upt_Suc add: A nth_map_upt)
  have rc: "row_cols A r = map snd (filter (\<lambda>p. fst p = r) ps)" if "r < nrows" for r
  proof -
    have "rowp A ! (r + 1) \<le> length (cols A)"
      using that rp[of "r + 1"] rows_below_le[of ps "r + 1"] by (simp add: f(4))
    then have "row_cols A r
        = take (rowp A ! (r + 1) - rowp A ! r) (drop (rowp A ! r) (cols A))"
      unfolding row_cols_def by (rule map_nth_upt_take_drop)
    then show ?thesis
      using that rp[of r] rp[of "r + 1"] cols_segment[OF sf, of r] by (simp add: f(4))
  qed
  have 1: "nbrows A = (num_dof mesh + M - 1) div M"
    using ceil_rows(1)[OF assms(1), of "num_dof mesh"] by (simp add: f(1) nrows_def)
  have 2: "rowp A ! 0 = 0" using rp[of 0] by (simp add: rows_below_0)
  have 3: "rowp A ! nbrows A = nnz A"
    using rp[of nrows] rows_below_all[OF b] by (simp add: f)
  have 4: "length (cols A) = nnz A" by (simp add: f)
  have 5: "\<forall>r<nbrows A. rowp A ! r \<le> rowp A ! (r + 1) \<and> sorted_wrt (<) (row_cols A r)"
  proof (intro allI impI)
    fix r assume "r < nbrows A"
    then have r: "r < nrows" by (simp add: f(1))
    have "rowp A ! r \<le> rowp A ! (r + 1)"
      using r rp[of r] rp[of "r + 1"] rows_below_mono[of ps r] by simp
    moreover have "sorted_wrt (<) (row_cols A r)"
      unfolding rc[OF r] using st by (rule std_set_row)
    ultimately show "rowp A ! r \<le> rowp A ! (r + 1) \<and> sorted_wrt (<) (row_cols A r)" ..
  qed
  have "{(r, c). r < nbrows A \<and> c \<in> set (row_cols A r)} = set ps"
  proof (intro set_eqI iffI)
    fix x assume "x \<in> {(r, c). r < nbrows A \<and> c \<in> set (row_cols A r)}"
    then obtain r c where x: "x = (r, c)" and r: "r < nrows" and c: "c \<in> set (row_cols A r)"
      by (auto simp: f(1))
    from c obtain p where p: "p \<in> set ps" "fst p = r" "snd p = c"
      unfolding rc[OF r] by auto
    have "p = x" using p(2,3) x by (simp add: prod_eq_iff)
    then show "x \<in> set ps" using p(1) by simp
  next
    fix x assume xs: "x \<in> set ps"
    obtain r c where x: "x = (r, c)" by (cases x)
    have r: "r < nrows" using b xs x by auto
    have "c \<in> set (row_cols A r)"
      unfolding rc[OF r] using xs x by force
    then show "x \<in> {(r, c). r < nbrows A \<and> c \<in> set (row_cols A r)}"
      using r x by (simp add: f(1))
  qed
  then have 6: "{(r, c). r < nbrows A \<and> c \<in> set (row_cols A r)} =
           {(element_dof mesh ! (i * ndof + j1) div M, element_dof mesh ! (i * ndof + j2) div M)
              | i j1 j2. i < mesh_nelems mesh \<and> j1 < ndof \<and> j2 < ndof}"
    unfolding ps_def node_pairs_rows .
  show ?thesis
    using 1 f(2) f(1) f(5) 2 3 4 5 6 by (intro conjI) simp_all
qed

definition example_dof_mesh :: ElementMesh where
  "example_dof_mesh =
     \<lparr>mesh_nelems = 2, num_dof = 7, element_dof = [0, 1, 2, 3, 2, 3, 5, 6],
      element_sign = [1, 1, 1, 1, 1, 1, 1, 1]\<rparr>"

theorem create_block_matrix_pattern_witness:
  "(0::nat) < 2
   \<and> list_all (\<lambda>i. list_all (\<lambda>j. element_dof example_dof_mesh ! (i * 4 + j)
         < num_dof example_dof_mesh) [0..<4]) [0..<mesh_nelems example_dof_mesh]
   \<and> create_block_matrix 4 2 example_dof_mesh =
       \<lparr>nbrows = 4, nbcols = 4, nnz = 12, rowp = [0, 2, 6, 9, 12],
        cols = [0, 1, 0, 1, 2, 3, 1, 2, 3, 1, 2, 3]\<rparr>
   \<and> nbrows (create_block_matrix 4 2 example_dof_mesh) = (num_dof example_dof_mesh + 2 - 1) div 2
   \<and> rowp (create_block_matrix 4 2 example_dof_mesh) ! 4 = nnz (create_block_matrix 4 2 example_dof_mesh)"
proof -
  have h1: "(0::nat) < 2" by simp
  have l: "list_all (\<lambda>i. list_all (\<lambda>j. element_dof example_dof_mesh ! (i * 4 + j)
         < num_dof example_dof_mesh) [0..<4]) [0..<mesh_nelems example_dof_mesh]"
    by code_simp
  have h2: "\<forall>i<mesh_nelems example_dof_mesh. \<forall>j<4.
      element_dof example_dof_mesh ! (i * 4 + j) < num_dof example_dof_mesh"
    using l unfolding list_all_iff by simp
  have v: "create_block_matrix 4 2 example_dof_mesh =
       \<lparr>nbrows = 4, nbcols = 4, nnz = 12, rowp = [0, 2, 6, 9, 12],
        cols = [0, 1, 0, 1, 2, 3, 1, 2, 3, 1, 2, 3]\<rparr>"
    by code_simp
  have n: "nbrows (create_block_matrix 4 2 example_dof_mesh) = 4" by (simp add: v)
  show ?thesis
    using create_block_matrix_pattern[OF h1 h2 refl] h1 l v n by simp
qed

section \<open>Boundary conditions\<close>

text \<open>
  The entity kinds of \<open>ElementTypes\<close> and the class \<open>Basis\<close> (a template argument) are
  declared in headers that are not among the sources. A basis is a parameter of the
  model: a record of the constants and static member functions the code calls. A
  function that fills an array takes the array before the call and returns it after
  the call.
\<close>

datatype ElementEntity = VERTEX | EDGE | FACE | VOLUME

record Basis =
  nbasis :: nat
  basis_ndof :: nat
  get_entity_ndof :: "nat \<Rightarrow> ElementEntity \<Rightarrow> nat \<Rightarrow> nat"
  get_entity_dof :: "nat \<Rightarrow> ElementEntity \<Rightarrow> nat \<Rightarrow> nat list \<Rightarrow> nat list \<Rightarrow> nat list"
  set_entity_dof :: "nat \<Rightarrow> ElementEntity \<Rightarrow> nat \<Rightarrow> nat \<Rightarrow> nat list \<Rightarrow> nat list \<Rightarrow> nat list"
  set_entity_signs :: "nat \<Rightarrow> ElementEntity \<Rightarrow> nat \<Rightarrow> nat \<Rightarrow> int list \<Rightarrow> int list"

text \<open>
  \<open>get_labels_from_verts\<close>: the three label arrays after the call. \<open>label_edges\<close> and
  \<open>label_faces\<close> are the two loops over the local edges and faces of one element.
\<close>

definition label_edges ::
  "ElementTypes \<Rightarrow> MeshConnectivity3D \<Rightarrow> nat \<Rightarrow> nat list \<Rightarrow> nat list \<Rightarrow> nat list" where
  "label_edges E m elem vert_labels edge_labels0 =
     (case get_element_edges E m elem NULL of (elem_edges, ne) \<Rightarrow>
        fold (\<lambda>e edge_labels.
                let v = get_element_edge_verts E m elem e [] in
                if vert_labels ! (v ! 0) \<noteq> NO_LABEL \<and> vert_labels ! (v ! 1) \<noteq> NO_LABEL
                then edge_labels[edges_at m elem_edges e := edges_at m elem_edges e]
                else edge_labels)
          [0..<ne] edge_labels0)"

definition label_faces ::
  "ElementTypes \<Rightarrow> MeshConnectivity3D \<Rightarrow> nat \<Rightarrow> nat list \<Rightarrow> nat list \<Rightarrow> nat list" where
  "label_faces E m elem vert_labels face_labels0 =
     (case get_element_faces E m elem of (elem_faces, nf) \<Rightarrow>
        fold (\<lambda>f face_labels.
                case get_element_face_verts E m elem f of (fv, nfv) \<Rightarrow>
                  if nfv = 3 then
                    (if vert_labels ! (fv ! 0) \<noteq> NO_LABEL \<and> vert_labels ! (fv ! 1) \<noteq> NO_LABEL
                        \<and> vert_labels ! (fv ! 2) \<noteq> NO_LABEL
                     then face_labels[faces_at m elem_faces f := faces_at m elem_faces f]
                     else face_labels)
                  else if nfv = 4 then
                    (if vert_labels ! (fv ! 0) \<noteq> NO_LABEL \<and> vert_labels ! (fv ! 1) \<noteq> NO_LABEL
                        \<and> vert_labels ! (fv ! 2) \<noteq> NO_LABEL \<and> vert_labels ! (fv ! 3) \<noteq> NO_LABEL
                     then face_labels[faces_at m elem_faces f := faces_at m elem_faces f]
                     else face_labels)
                  else face_labels)
          [0..<nf] face_labels0)"

definition get_labels_from_verts ::
  "ElementTypes \<Rightarrow> MeshConnectivity3D \<Rightarrow> nat \<Rightarrow> nat list
     \<Rightarrow> nat list \<times> nat list \<times> nat list" where
  "get_labels_from_verts E m nv verts =
     (let vert_labels =
            fold (\<lambda>i l. if verts ! i < nverts m then l[verts ! i := i] else l) [0..<nv]
              (replicate (nverts m) NO_LABEL)
      in case fold (\<lambda>elem (edge_labels, face_labels).
                      (label_edges E m elem vert_labels edge_labels,
                       label_faces E m elem vert_labels face_labels))
                [0..<nelems m]
                (replicate (nedges m) NO_LABEL, replicate (nfaces m) NO_LABEL) of
           (edge_labels, face_labels) \<Rightarrow> (vert_labels, edge_labels, face_labels))"

text \<open>
  The constructor of \<open>BoundaryCondition\<close>. The state of its loop over the elements is
  the three label arrays, the local array \<open>dof\<close> and the entries of \<open>boundary_dof\<close>
  written so far (\<open>boundary_dof_counter\<close> is their number). \<open>collect_entity\<close> is the
  loop over the bases, which the three scans share word for word but for the entity
  kind. The scan over the edges calls \<open>get_element_faces\<close>, as the source does: its
  pointer \<open>elem_edges\<close> points into the element-to-face arrays and \<open>ne\<close> is the number
  of faces.
\<close>

record bc_state =
  face_labels :: "nat list"
  edge_labels :: "nat list"
  vert_labels :: "nat list"
  dof :: "nat list"
  boundary_dof :: "nat list"

definition collect_entity ::
  "Basis \<Rightarrow> nat list \<Rightarrow> ElementEntity \<Rightarrow> nat \<Rightarrow> nat list \<Rightarrow> bc_state \<Rightarrow> bc_state" where
  "collect_entity B basis_select kind index elem_dof st0 =
     fold (\<lambda>basis st.
             if basis_select ! basis \<noteq> 0 then
               (let n = get_entity_ndof B basis kind index;
                    dof1 = get_entity_dof B basis kind index elem_dof (dof st)
                in st\<lparr>dof := dof1,
                      boundary_dof := fold (\<lambda>k b. b @ [dof1 ! k]) [0..<n] (boundary_dof st)\<rparr>)
             else st)
       [0..<nbasis B] st0"

definition scan_faces ::
  "ElementTypes \<Rightarrow> Basis \<Rightarrow> MeshConnectivity3D \<Rightarrow> nat list \<Rightarrow> nat \<Rightarrow> nat list
     \<Rightarrow> bc_state \<Rightarrow> bc_state" where
  "scan_faces E B conn basis_select elem elem_dof st0 =
     (case get_element_faces E conn elem of (elem_faces, nf) \<Rightarrow>
        fold (\<lambda>f st.
                if face_labels st ! faces_at conn elem_faces f \<noteq> NO_LABEL then
                  (let st1 = collect_entity B basis_select FACE f elem_dof st
                   in st1\<lparr>face_labels :=
                            (face_labels st1)[faces_at conn elem_faces f := NO_LABEL]\<rparr>)
                else st)
          [0..<nf] st0)"

definition scan_edges ::
  "ElementTypes \<Rightarrow> Basis \<Rightarrow> MeshConnectivity3D \<Rightarrow> nat list \<Rightarrow> nat \<Rightarrow> nat list
     \<Rightarrow> bc_state \<Rightarrow> bc_state" where
  "scan_edges E B conn basis_select elem elem_dof st0 =
     (case get_element_faces E conn elem of (elem_edges, ne) \<Rightarrow>
        fold (\<lambda>e st.
                if edge_labels st ! faces_at conn elem_edges e \<noteq> NO_LABEL then
                  (let st1 = collect_entity B basis_select EDGE e elem_dof st
                   in st1\<lparr>edge_labels :=
                            (edge_labels st1)[faces_at conn elem_edges e := NO_LABEL]\<rparr>)
                else st)
          [0..<ne] st0)"

definition scan_verts ::
  "ElementTypes \<Rightarrow> Basis \<Rightarrow> MeshConnectivity3D \<Rightarrow> nat list \<Rightarrow> nat \<Rightarrow> nat list
     \<Rightarrow> bc_state \<Rightarrow> bc_state" where
  "scan_verts E B conn basis_select elem elem_dof st0 =
     (case get_element_verts E conn elem of (elem_verts, nv) \<Rightarrow>
        fold (\<lambda>v st.
                if vert_labels st ! verts_at conn elem_verts v \<noteq> NO_LABEL then
                  (let st1 = collect_entity B basis_select VERTEX v elem_dof st
                   in st1\<lparr>vert_labels :=
                            (vert_labels st1)[verts_at conn elem_verts v := NO_LABEL]\<rparr>)
                else st)
          [0..<nv] st0)"

text \<open>
  The result is the content of the member \<open>dof\<close>; the member \<open>ndof\<close> is its length.
  The array \<open>boundary_dof\<close> has \<open>num_dof\<close> entries: collecting more overruns it, and
  the model returns \<open>None\<close>.
\<close>

definition boundary_condition ::
  "ElementTypes \<Rightarrow> Basis \<Rightarrow> MeshConnectivity3D \<Rightarrow> ElementMesh \<Rightarrow> nat list \<Rightarrow> nat
     \<Rightarrow> nat list \<Rightarrow> nat list option" where
  "boundary_condition E B conn mesh basis_select nv verts =
     (case get_labels_from_verts E conn nv verts of
        (vert_labels0, edge_labels0, face_labels0) \<Rightarrow>
          (let st0 = \<lparr>face_labels = face_labels0, edge_labels = edge_labels0,
                      vert_labels = vert_labels0, dof = replicate (basis_ndof B) 0,
                      boundary_dof = []\<rparr>;
               st = fold (\<lambda>elem st.
                            let elem_dof = drop (basis_ndof B * elem) (element_dof mesh)
                            in scan_verts E B conn basis_select elem elem_dof
                                 (scan_edges E B conn basis_select elem elem_dof
                                   (scan_faces E B conn basis_select elem elem_dof st)))
                      [0..<nelems conn] st0
           in if length (boundary_dof st) \<le> num_dof mesh then Some (boundary_dof st)
              else None))"

text \<open>
  A basis with one degree of freedom on every edge and none elsewhere, as the lowest
  order edge elements have: the degree of freedom of local edge \<open>e\<close> is entry \<open>e\<close> of
  the element's array.
\<close>

definition edge_basis :: "nat \<Rightarrow> Basis" where
  "edge_basis n =
     \<lparr>nbasis = 1, basis_ndof = n,
      get_entity_ndof = (\<lambda>basis kind index. if kind = EDGE then 1 else 0),
      get_entity_dof = (\<lambda>basis kind index elem_dof dof.
         if kind = EDGE then dof[0 := elem_dof ! index] else dof),
      set_entity_dof = (\<lambda>basis kind index orient dof elem_dof.
         if kind = EDGE then elem_dof[index := dof ! 0] else elem_dof),
      set_entity_signs = (\<lambda>basis kind index orient signs.
         if kind = EDGE then signs[index := (if orient = 1 then - 1 else 1)] else signs)\<rparr>"

text \<open>
  One tetrahedron with the vertices 0, 1, 2, 3, as the constructor of the connectivity
  returns it, and the degrees of freedom of the edge basis on it: one for each of the
  six edges, in the order of the local edges.
\<close>

definition one_tet :: MeshConnectivity3D where
  "one_tet =
     \<lparr>nverts = 4, ntets = 1, nhex = 0, nwedge = 0, npyrmd = 0, nelems = 1,
      ntri_faces = 4, nquad_faces = 0, nfaces = 4, nedges = 6,
      tet_verts = [0, 1, 2, 3], hex_verts = [], wedge_verts = [],
      pyrmd_verts = [], vert_element_ptr = [0, 1, 2, 3, 4],
      vert_elements = [0, 0, 0, 0], tet_faces = [0, 1, 2, 3], hex_faces = [],
      wedge_faces = [], pyrmd_faces = [],
      tri_face_elements = [0, NO_LABEL, 0, NO_LABEL, 0, NO_LABEL, 0, NO_LABEL],
      quad_face_elements = [], tet_edges = [0, 1, 2, 3, 4, 5],
      hex_edges = [], wedge_edges = [], pyrmd_edges = []\<rparr>"

definition one_tet_dof :: ElementMesh where
  "one_tet_dof =
     \<lparr>mesh_nelems = 1, num_dof = 6, element_dof = [0, 1, 2, 3, 4, 5],
      element_sign = [1, 1, 1, 1, 1, 1]\<rparr>"

lemma one_tet_mesh:
  "mesh_connectivity ET_tables 4 1 [0, 1, 2, 3] 0 [] 0 [] 0 [] = Some one_tet"
  by code_simp

lemma one_tet_labels:
  "get_labels_from_verts ET_tables one_tet 2 [2, 3] =
        ([NO_LABEL, NO_LABEL, 0, 1],
         [NO_LABEL, NO_LABEL, NO_LABEL, NO_LABEL, NO_LABEL, 5],
         [NO_LABEL, NO_LABEL, NO_LABEL, NO_LABEL])"
  by code_simp

lemma one_tet_edge:
  "get_element_edge_verts ET_tables one_tet 0 5 [] = [2, 3]"
  "get_element_edges ET_tables one_tet 0 NULL = (Ptr Tet 0, 6)"
  "edges_at one_tet (Ptr Tet 0) 5 = 5"
  "get_entity_ndof (edge_basis 6) 0 EDGE 5 = 1"
  "get_entity_dof (edge_basis 6) 0 EDGE 5 (element_dof one_tet_dof) [0] = [5]"
  by code_simp+

definition one_tet_scan :: bc_state where
  "one_tet_scan =
     \<lparr>face_labels = [NO_LABEL, NO_LABEL, NO_LABEL, NO_LABEL],
      edge_labels = [NO_LABEL, NO_LABEL, NO_LABEL, NO_LABEL, NO_LABEL, 5],
      vert_labels = [NO_LABEL, NO_LABEL, 0, 1], dof = [0, 0, 0, 0, 0, 0],
      boundary_dof = []\<rparr>"

lemma one_tet_scan_faces:
  "scan_faces ET_tables (edge_basis 6) one_tet [1] 0 [0, 1, 2, 3, 4, 5] one_tet_scan
     = one_tet_scan"
  by code_simp

lemma one_tet_scan_edges:
  "scan_edges ET_tables (edge_basis 6) one_tet [1] 0 [0, 1, 2, 3, 4, 5] one_tet_scan
     = one_tet_scan"
  by code_simp

lemma one_tet_scan_verts:
  "boundary_dof (scan_verts ET_tables (edge_basis 6) one_tet [1] 0 [0, 1, 2, 3, 4, 5]
     one_tet_scan) = []"
  by code_simp

lemma one_tet_boundary:
  "boundary_condition ET_tables (edge_basis 6) one_tet one_tet_dof [1] 2 [2, 3] = Some []"
proof -
  have n: "[0..<nelems one_tet] = [0]" by (simp add: one_tet_def)
  have b: "basis_ndof (edge_basis 6) = 6" by (simp add: edge_basis_def)
  have d: "element_dof one_tet_dof = [0, 1, 2, 3, 4, 5]" "num_dof one_tet_dof = 6"
    by (simp_all add: one_tet_dof_def)
  have r: "replicate 6 (0::nat) = [0, 0, 0, 0, 0, 0]" by code_simp
  define st where "st = scan_verts ET_tables (edge_basis 6) one_tet [1] 0 [0, 1, 2, 3, 4, 5]
      (scan_edges ET_tables (edge_basis 6) one_tet [1] 0 [0, 1, 2, 3, 4, 5]
        (scan_faces ET_tables (edge_basis 6) one_tet [1] 0 [0, 1, 2, 3, 4, 5] one_tet_scan))"
  have "boundary_condition ET_tables (edge_basis 6) one_tet one_tet_dof [1] 2 [2, 3]
      = (if length (boundary_dof st) \<le> 6 then Some (boundary_dof st) else None)"
    unfolding boundary_condition_def one_tet_labels n b d r st_def one_tet_scan_def
    by (simp add: Let_def)
  moreover have "boundary_dof st = []"
    unfolding st_def one_tet_scan_faces one_tet_scan_edges by (rule one_tet_scan_verts)
  ultimately show ?thesis by simp
qed

text \<open>
  C3. The constructor of \<open>BoundaryCondition\<close> does not collect the degrees of freedom
  of every marked edge. On one tetrahedron with the vertices 2 and 3 given, the edge
  between them (local edge 5, global edge 5) is the only marked entity besides the two
  vertices, and \<open>get_labels_from_verts\<close> labels it; the edge basis has the degree of
  freedom 5 on it. The scan over the edges runs over the four entries of the
  element-to-face array, finds no label at the positions 0 to 3 of \<open>edge_labels\<close> and
  never reaches local edge 5: the list returned is empty.
\<close>

theorem boundary_condition_skips_marked_edge:
  "mesh_connectivity ET_tables 4 1 [0, 1, 2, 3] 0 [] 0 [] 0 [] = Some one_tet
   \<and> get_element_edge_verts ET_tables one_tet 0 5 [] = [2, 3]
   \<and> get_element_edges ET_tables one_tet 0 NULL = (Ptr Tet 0, 6)
   \<and> edges_at one_tet (Ptr Tet 0) 5 = 5
   \<and> get_labels_from_verts ET_tables one_tet 2 [2, 3] =
        ([NO_LABEL, NO_LABEL, 0, 1],
         [NO_LABEL, NO_LABEL, NO_LABEL, NO_LABEL, NO_LABEL, 5],
         [NO_LABEL, NO_LABEL, NO_LABEL, NO_LABEL])
   \<and> get_entity_ndof (edge_basis 6) 0 EDGE 5 = 1
   \<and> get_entity_dof (edge_basis 6) 0 EDGE 5 (element_dof one_tet_dof) [0] = [5]
   \<and> boundary_condition ET_tables (edge_basis 6) one_tet one_tet_dof [1] 2 [2, 3] = Some []"
  using one_tet_mesh one_tet_labels one_tet_edge one_tet_boundary by (intro conjI)

end
